theory Spec2Isabelle
  imports Main "HOL-Library.AList" "HOL-Library.Multiset"
begin

section \<open>Data model of the block validator\<close>

text \<open>
  The theory embeds \<^verbatim>\<open>sawtooth_validator/journal/block_validator.py\<close>.
  Block wrappers are mutable Python objects that are shared between the block cache,
  the pending multimap and the callers, so they live in an object store (\<open>heap\<close>)
  and are passed around as references. Exceptions are values of type \<open>exn\<close>.
\<close>

datatype BlockStatus = Unknown | Invalid | Valid

datatype exn =
    BlockValidationFailure
  | BlockValidationError
  | DuplicateBatch
  | DuplicateTransaction
  | MissingDependency
  | KeyError
  | StopIteration
  | RuntimeError
  | AttributeError
  | OtherException

type_synonym block_id = string
type_synonym state_root = string
type_synonym transaction = string
type_synonym txn_result = string
type_synonym ref = nat
type_synonym callback = nat

record Batch =
  header_signature :: string
  transactions :: "transaction list"

text \<open>
  \<open>BlockWrapper\<close>: \<open>identifier\<close> and \<open>header_signature\<close> of the wrapper are the same
  value (the block's header signature), and \<open>blkw.batches\<close> is \<open>blkw.block.batches\<close>;
  each is one field here.
\<close>

record BlockWrapper =
  "identifier" :: block_id
  previous_block_id :: block_id
  block_num :: nat
  state_root_hash :: state_root
  signer_public_key :: string
  batches :: "Batch list"
  status :: BlockStatus
  execution_results :: "txn_result list"
  num_transactions :: nat

record batch_result =
  is_valid :: bool
  state_hash :: state_root

text \<open>Calls on the scheduler and the chain commit state, and writes to shared objects,
  in the order in which the code makes them.\<close>

datatype event =
    ChainCommitStateNew block_id
  | CreateScheduler state_root
  | Execute
  | CheckDuplicateBatches
  | CheckDuplicateTransactions
  | CheckTransactionDependencies
  | AddBatch string "state_root option"
  | Cancel
  | Finalize
  | Complete
  | StatusSet ref BlockStatus
  | CacheDelete block_id

section \<open>look_ahead\<close>

text \<open>
  \<^verbatim>\<open>
  it = iter(iterable); last = next(it)
  for val in it:
      yield last, True
      last = val
  yield last, False
  \<close>
  \<open>look_ahead_body\<close> is the body of the generator: the list of the pairs it yields,
  or the exception that leaves it. \<open>next(it)\<close> on an exhausted iterator raises
  \<open>StopIteration\<close>, which nothing in the body catches. The source's variable
  \<open>last\<close> is \<open>lastv\<close> here.
\<close>

fun look_ahead_loop :: "'a \<Rightarrow> 'a list \<Rightarrow> ('a \<times> bool) list" where
  "look_ahead_loop lastv [] = [(lastv, False)]"
| "look_ahead_loop lastv (val # it) = (lastv, True) # look_ahead_loop val it"

definition look_ahead_body :: "'a list \<Rightarrow> exn + ('a \<times> bool) list" where
  "look_ahead_body iterable =
     (case iterable of
        [] \<Rightarrow> Inl StopIteration
      | lastv # it \<Rightarrow> Inr (look_ahead_loop lastv it))"

text \<open>
  What the consumer of the generator gets depends on the interpreter, which the source
  file does not fix. Where PEP 479 is in force (\<open>generator_stop\<close>: Python 3.7 and
  later, or the \<open>__future__\<close> import before), a \<open>StopIteration\<close> that leaves a
  generator body reaches the consumer as \<open>RuntimeError\<close>. Before that it reaches the
  consumer as the end of the iteration: here the body raises before its first
  \<open>yield\<close>, so the consumer sees an empty stream.
\<close>

definition look_ahead :: "bool \<Rightarrow> 'a list \<Rightarrow> exn + ('a \<times> bool) list" where
  "look_ahead generator_stop iterable =
     (case look_ahead_body iterable of
        Inl e \<Rightarrow>
          if e = StopIteration
          then (if generator_stop then Inl RuntimeError else Inr [])
          else Inl e
      | Inr pairs \<Rightarrow> Inr pairs)"

section \<open>External collaborators\<close>

text \<open>
  The chain commit state, the transaction executor and its scheduler, the permission
  verifier, the consensus module, the rule enforcer and the block store are not part of
  \<^verbatim>\<open>block_validator.py\<close>. They are parameters of the model:
  a call that can raise returns \<open>Some e\<close> (or \<open>Inl e\<close>), and the two constants
  imported from other modules are fields as well. \<open>chain_head env n\<close> is the
  identifier of the chain head that the \<open>n\<close>-th read of
  \<open>block_store.chain_head\<close> returns (\<open>None\<close> when there is no head).
  \<open>generator_stop\<close> tells whether PEP 479 is in force in the interpreter.
\<close>

record env =
  NULL_BLOCK_IDENTIFIER :: block_id
  INIT_ROOT_KEY :: state_root
  chain_commit_state_new :: "block_id \<Rightarrow> exn option"
  create_scheduler :: "state_root \<Rightarrow> exn option"
  execute :: "exn option"
  check_for_duplicate_batches :: "block_id \<Rightarrow> Batch list \<Rightarrow> exn option"
  check_for_duplicate_transactions :: "block_id \<Rightarrow> transaction list \<Rightarrow> exn option"
  check_for_transaction_dependencies :: "block_id \<Rightarrow> transaction list \<Rightarrow> exn option"
  add_batch :: "Batch \<Rightarrow> state_root option \<Rightarrow> exn option"
  finalize :: "exn option"
  complete :: "exn option"
  get_batch_execution_result :: "string \<Rightarrow> batch_result option"
  get_transaction_execution_results :: "string \<Rightarrow> txn_result list"
  is_batch_signer_authorized :: "Batch \<Rightarrow> state_root \<Rightarrow> exn + bool"
  verify_block :: "block_id option \<Rightarrow> BlockWrapper \<Rightarrow> exn + bool"
  enforce_validation_rules :: "state_root \<Rightarrow> string \<Rightarrow> Batch list \<Rightarrow> exn + bool"
  chain_head :: "nat \<Rightarrow> block_id option"
  generator_stop :: bool

section \<open>Batch validation\<close>

text \<open>
  Every function of this section returns the calls it made on the collaborators, in
  order. A call is recorded when it is made; if it raises, the function ends with the
  exception and the call is the last event (before a possible \<open>Cancel\<close>).
\<close>

text \<open>The \<open>for batch, has_more in look_ahead(...)\<close> loop that feeds the scheduler.\<close>

fun add_batches :: "env \<Rightarrow> state_root \<Rightarrow> (Batch \<times> bool) list \<Rightarrow> event list \<times> exn option" where
  "add_batches env root [] = ([], None)"
| "add_batches env root ((batch, has_more) # rest) =
     (let hint = (if has_more then None else Some root) in
      case add_batch env batch hint of
        Some e \<Rightarrow> ([AddBatch (header_signature batch) hint], Some e)
      | None \<Rightarrow>
          (case add_batches env root rest of
             (ev, r) \<Rightarrow> (AddBatch (header_signature batch) hint # ev, r)))"

text \<open>
  The body of the \<open>try\<close> of \<open>_validate_batches_in_block\<close> (lines 184 to 210).
  The middle component tells whether \<open>scheduler\<close> is not \<open>None\<close> when the body
  ends.
\<close>

definition schedule_batches ::
  "env \<Rightarrow> BlockWrapper \<Rightarrow> state_root \<Rightarrow> event list \<times> bool \<times> exn option" where
  "schedule_batches env blkw prev_state_root =
     (let ev1 = [ChainCommitStateNew (previous_block_id blkw)] in
      case chain_commit_state_new env (previous_block_id blkw) of
        Some e \<Rightarrow> (ev1, False, Some e)
      | None \<Rightarrow>
     (let ev2 = ev1 @ [CreateScheduler prev_state_root] in
      case create_scheduler env prev_state_root of
        Some e \<Rightarrow> (ev2, False, Some e)
      | None \<Rightarrow>
     (let ev3 = ev2 @ [Execute] in
      case execute env of
        Some e \<Rightarrow> (ev3, True, Some e)
      | None \<Rightarrow>
     (let ev4 = ev3 @ [CheckDuplicateBatches] in
      case check_for_duplicate_batches env (previous_block_id blkw) (batches blkw) of
        Some e \<Rightarrow> (ev4, True, Some e)
      | None \<Rightarrow>
     (let txns = concat (map transactions (batches blkw));
          ev5 = ev4 @ [CheckDuplicateTransactions] in
      case check_for_duplicate_transactions env (previous_block_id blkw) txns of
        Some e \<Rightarrow> (ev5, True, Some e)
      | None \<Rightarrow>
     (let ev6 = ev5 @ [CheckTransactionDependencies] in
      case check_for_transaction_dependencies env (previous_block_id blkw) txns of
        Some e \<Rightarrow> (ev6, True, Some e)
      | None \<Rightarrow>
     (case look_ahead (generator_stop env) (batches blkw) of
        Inl e \<Rightarrow> (ev6, True, Some e)
      | Inr pairs \<Rightarrow>
          (case add_batches env (state_root_hash blkw) pairs of
             (ev, r) \<Rightarrow> (ev6 @ ev, True, r)))))))))"

text \<open>The \<open>for batch in blkw.batches\<close> loop after the scheduler has completed
  (lines 229 to 242); the last argument is the running \<open>state_hash\<close>.\<close>

fun collect_results ::
  "env \<Rightarrow> Batch list \<Rightarrow> BlockWrapper \<Rightarrow> state_root option
     \<Rightarrow> BlockWrapper \<times> state_root option \<times> exn option" where
  "collect_results env [] blkw sh = (blkw, sh, None)"
| "collect_results env (batch # rest) blkw sh =
     (case get_batch_execution_result env (header_signature batch) of
        None \<Rightarrow> (blkw, sh, Some BlockValidationFailure)
      | Some batch_result \<Rightarrow>
          if is_valid batch_result then
            (let txn_results = get_transaction_execution_results env (header_signature batch);
                 blkw1 = blkw\<lparr>execution_results := execution_results blkw @ txn_results\<rparr>;
                 sh1 = Some (state_hash batch_result);
                 blkw2 = blkw1\<lparr>num_transactions :=
                           num_transactions blkw1 + length (transactions batch)\<rparr>
             in collect_results env rest blkw2 sh1)
          else (blkw, sh, Some BlockValidationFailure))"

definition validate_batches_in_block ::
  "env \<Rightarrow> BlockWrapper \<Rightarrow> state_root \<Rightarrow> BlockWrapper \<times> event list \<times> exn option" where
  "validate_batches_in_block env blkw prev_state_root =
     (if batches blkw = [] then (blkw, [], None)
      else
        case schedule_batches env blkw prev_state_root of
          (ev, created, Some err) \<Rightarrow>
            (let ev1 = (if created then ev @ [Cancel] else ev) in
             if err = DuplicateBatch \<or> err = DuplicateTransaction \<or> err = MissingDependency
             then (blkw, ev1, Some BlockValidationFailure)
             else (blkw, ev1, Some err))
        | (ev, created, None) \<Rightarrow>
            (case finalize env of
               Some e \<Rightarrow> (blkw, ev @ [Finalize], Some e)
             | None \<Rightarrow>
            (case complete env of
               Some e \<Rightarrow> (blkw, ev @ [Finalize, Complete], Some e)
             | None \<Rightarrow>
            (let ev2 = ev @ [Finalize, Complete] in
             case collect_results env (batches blkw) blkw None of
               (blkw1, sh, Some e) \<Rightarrow> (blkw1, ev2, Some e)
             | (blkw1, sh, None) \<Rightarrow>
                 if Some (state_root_hash blkw1) \<noteq> sh
                 then (blkw1, ev2, Some BlockValidationFailure)
                 else (blkw1, ev2, None)))))"

section \<open>Validation of one block\<close>

text \<open>
  The validator's state: the object store, the block cache, the trackers, the two gauges,
  the jobs handed to the worker pool and not yet run, the callback invocations made so
  far, the events so far, and the number of reads of the chain head made so far.

  Modelled from the spec: the block cache, whose class is not in the source file. It is
  keyed by block identifier; a lookup or a \<open>del\<close> of an absent key raises
  \<open>KeyError\<close>, as the handlers in \<open>validate_block\<close> and
  \<open>submit_blocks_for_verification\<close> expect of a lookup.
\<close>

record vstate =
  heap :: "ref \<Rightarrow> BlockWrapper"
  block_cache :: "block_id \<rightharpoonup> ref"
  blocks_processing :: "block_id set"
  blocks_pending :: "block_id set"
  blocks_pending_descendants :: "(block_id \<times> ref list) list"
  blocks_processing_gauge :: nat
  blocks_pending_gauge :: nat
  thread_pool :: "(ref \<times> callback) list"
  callbacks :: "(callback \<times> ref) list"
  events :: "event list"
  clock :: nat

abbreviation idf :: "vstate \<Rightarrow> ref \<Rightarrow> block_id" where
  "idf s r \<equiv> identifier (heap s r)"

definition get_previous_block_state_root ::
  "env \<Rightarrow> vstate \<Rightarrow> BlockWrapper \<Rightarrow> exn + state_root" where
  "get_previous_block_state_root env s blkw =
     (if previous_block_id blkw = NULL_BLOCK_IDENTIFIER env then Inr (INIT_ROOT_KEY env)
      else
        case block_cache s (previous_block_id blkw) of
          None \<Rightarrow> Inl KeyError
        | Some p \<Rightarrow> Inr (state_root_hash (heap s p)))"

fun batch_signers_authorized :: "env \<Rightarrow> Batch list \<Rightarrow> state_root \<Rightarrow> exn + bool" where
  "batch_signers_authorized env [] prev_state_root = Inr True"
| "batch_signers_authorized env (batch # rest) prev_state_root =
     (case is_batch_signer_authorized env batch prev_state_root of
        Inl e \<Rightarrow> Inl e
      | Inr ok \<Rightarrow>
          if \<not> ok then Inr False
          else batch_signers_authorized env rest prev_state_root)"

definition validate_permissions :: "env \<Rightarrow> BlockWrapper \<Rightarrow> state_root \<Rightarrow> exn + bool" where
  "validate_permissions env blkw prev_state_root =
     (if block_num blkw \<noteq> 0
      then batch_signers_authorized env (batches blkw) prev_state_root
      else Inr True)"

definition validate_on_chain_rules :: "env \<Rightarrow> BlockWrapper \<Rightarrow> state_root \<Rightarrow> exn + bool" where
  "validate_on_chain_rules env blkw prev_state_root =
     (if block_num blkw \<noteq> 0
      then enforce_validation_rules env prev_state_root (signer_public_key blkw) (batches blkw)
      else Inr True)"

text \<open>
  The lookup of the predecessor at the head of the \<open>try\<close> of \<open>validate_block\<close>:
  \<open>Inr None\<close> is \<open>prev_block = None\<close> after the \<open>KeyError\<close>.
\<close>

definition lookup_prev_block :: "vstate \<Rightarrow> BlockWrapper \<Rightarrow> exn + ref option" where
  "lookup_prev_block s blkw =
     (case block_cache s (previous_block_id blkw) of
        None \<Rightarrow> Inr None
      | Some prev_block \<Rightarrow>
          if status (heap s prev_block) = Invalid then Inl BlockValidationFailure
          else if status (heap s prev_block) = Unknown then Inl BlockValidationError
          else Inr (Some prev_block))"

text \<open>
  The body of the outer \<open>try\<close> of \<open>validate_block\<close> (lines 287 to 334) on the
  block object \<open>r\<close>, whose value on entry is \<open>blkw\<close>. \<open>_load_consensus\<close>, the
  construction of the block verifier and \<open>verify_block\<close> are the one collaborator
  \<open>verify_block\<close>, applied to the predecessor's identifier (\<open>None\<close> for the
  genesis module).
\<close>

definition validate_block_try ::
  "env \<Rightarrow> vstate \<Rightarrow> ref \<Rightarrow> BlockWrapper \<Rightarrow> BlockWrapper \<times> event list \<times> exn option" where
  "validate_block_try env s r blkw =
     (case lookup_prev_block s blkw of
        Inl e \<Rightarrow> (blkw, [], Some e)
      | Inr prev_block \<Rightarrow>
     (case get_previous_block_state_root env s blkw of
        Inl e \<Rightarrow> (blkw, [], Some (if e = KeyError then BlockValidationError else e))
      | Inr prev_state_root \<Rightarrow>
     (case validate_permissions env blkw prev_state_root of
        Inl e \<Rightarrow> (blkw, [], Some e)
      | Inr permitted \<Rightarrow>
          if \<not> permitted then (blkw, [], Some BlockValidationFailure) else
     (case verify_block env (map_option (idf s) prev_block) blkw of
        Inl e \<Rightarrow> (blkw, [], Some e)
      | Inr verified \<Rightarrow>
          if \<not> verified then (blkw, [], Some BlockValidationFailure) else
     (case validate_on_chain_rules env blkw prev_state_root of
        Inl e \<Rightarrow> (blkw, [], Some e)
      | Inr conforms \<Rightarrow>
          if \<not> conforms then (blkw, [], Some BlockValidationFailure) else
     (case validate_batches_in_block env blkw prev_state_root of
        (blkw1, ev, Some e) \<Rightarrow> (blkw1, ev, Some e)
      | (blkw1, ev, None) \<Rightarrow>
          (blkw1\<lparr>status := Valid\<rparr>, ev @ [StatusSet r Valid], None)))))))"

definition store :: "vstate \<Rightarrow> ref \<Rightarrow> BlockWrapper \<Rightarrow> event list \<Rightarrow> vstate" where
  "store s r blkw ev = s\<lparr>heap := (heap s)(r := blkw), events := events s @ ev\<rparr>"

definition set_status :: "vstate \<Rightarrow> ref \<Rightarrow> BlockStatus \<Rightarrow> vstate" where
  "set_status s r st =
     s\<lparr>heap := (heap s)(r := (heap s r)\<lparr>status := st\<rparr>),
       events := events s @ [StatusSet r st]\<rparr>"

definition validate_block :: "env \<Rightarrow> vstate \<Rightarrow> ref \<Rightarrow> vstate \<times> exn option" where
  "validate_block env s r =
     (let blkw = heap s r in
      if status blkw = Valid then (s, None)
      else if status blkw = Invalid then (s, Some BlockValidationFailure)
      else
        case validate_block_try env s r blkw of
          (blkw1, ev, None) \<Rightarrow> (store s r blkw1 ev, None)
        | (blkw1, ev, Some err) \<Rightarrow>
            if err = BlockValidationFailure
            then (set_status (store s r blkw1 ev) r Invalid, Some err)
            else if err = BlockValidationError
            then (set_status (store s r blkw1 ev) r Unknown, Some err)
            else (store s r blkw1 ev, Some err))"

section \<open>Trackers\<close>

text \<open>
  Modelled from the spec: \<open>ConcurrentMultiMap\<close>, whose class is not in the source
  file. It maps a key to an ordered list; \<open>pop(key, default)\<close> removes the key and
  returns its list, or returns the default when the key is absent;
  \<open>append_if_unique\<close> is "append iff identifier not already present in the list
  for this key" and creates the list when the key is absent. The map is an association
  list in insertion order.
\<close>

definition mm_pop ::
  "(block_id \<times> ref list) list \<Rightarrow> block_id \<Rightarrow> ref list
     \<Rightarrow> ref list \<times> (block_id \<times> ref list) list" where
  "mm_pop m k dflt =
     (case map_of m k of
        None \<Rightarrow> (dflt, m)
      | Some v \<Rightarrow> (v, AList.delete k m))"

definition append_if_unique ::
  "(ref \<Rightarrow> block_id) \<Rightarrow> (block_id \<times> ref list) list \<Rightarrow> block_id \<Rightarrow> ref
     \<Rightarrow> (block_id \<times> ref list) list" where
  "append_if_unique ident m k item =
     (case map_of m k of
        None \<Rightarrow> m @ [(k, [item])]
      | Some v \<Rightarrow>
          if ident item \<in> ident ` set v then m
          else AList.update k (v @ [item]) m)"

text \<open>
  Modelled from the spec: \<open>ConcurrentSet\<close>, whose class is not in the source file. It
  is a set with \<open>add\<close>, membership and \<open>len\<close>; \<open>remove\<close> of an absent element
  raises \<open>KeyError\<close>, as the handler in \<open>_release_pending\<close> expects.
\<close>

definition set_remove :: "block_id set \<Rightarrow> block_id \<Rightarrow> exn + block_id set" where
  "set_remove A x = (if x \<in> A then Inr (A - {x}) else Inl KeyError)"

definition in_process :: "vstate \<Rightarrow> block_id \<Rightarrow> bool" where
  "in_process s block_id = (block_id \<in> blocks_processing s)"

definition in_pending :: "vstate \<Rightarrow> block_id \<Rightarrow> bool" where
  "in_pending s block_id = (block_id \<in> blocks_pending s)"

definition add_block_to_pending :: "vstate \<Rightarrow> ref \<Rightarrow> vstate" where
  "add_block_to_pending s block =
     (let s1 = s\<lparr>blocks_pending := insert (idf s block) (blocks_pending s)\<rparr>;
          previous = previous_block_id (heap s1 block)
      in s1\<lparr>blocks_pending_descendants :=
               append_if_unique (idf s1) (blocks_pending_descendants s1) previous block\<rparr>)"

definition update_gauges :: "vstate \<Rightarrow> vstate" where
  "update_gauges s =
     s\<lparr>blocks_pending_gauge := card (blocks_pending s),
       blocks_processing_gauge := card (blocks_processing s)\<rparr>"

section \<open>Submission\<close>

text \<open>
  \<open>submit_blocks_for_verification\<close>. \<open>thread_pool.submit\<close> queues the job
  \<open>(block, callback)\<close>; the job runs later, on a worker.
\<close>

fun submit_blocks_for_verification :: "vstate \<Rightarrow> ref list \<Rightarrow> callback \<Rightarrow> vstate" where
  "submit_blocks_for_verification s [] callback = s"
| "submit_blocks_for_verification s (block # blocks) callback =
     (if in_process s (idf s block)
      then submit_blocks_for_verification s blocks callback
      else if in_process s (previous_block_id (heap s block))
      then submit_blocks_for_verification (add_block_to_pending s block) blocks callback
      else if in_pending s (previous_block_id (heap s block))
      then submit_blocks_for_verification (add_block_to_pending s block) blocks callback
      else
        case block_cache s (previous_block_id (heap s block)) of
          None \<Rightarrow>
            submit_blocks_for_verification (add_block_to_pending s block) blocks callback
        | Some prev_block \<Rightarrow>
            (let s1 = (if status (heap s prev_block) = Unknown
                       then add_block_to_pending s block else s);
                 s2 = s1\<lparr>blocks_processing := insert (idf s1 block) (blocks_processing s1)\<rparr>;
                 s3 = update_gauges s2;
                 s4 = s3\<lparr>thread_pool := thread_pool s3 @ [(block, callback)]\<rparr>
             in submit_blocks_for_verification s4 blocks callback))"

section \<open>The cascade resolver\<close>

text \<open>The \<open>for blk in blocks_now_ready\<close> loop of the \<open>Valid\<close> branch.\<close>

fun remove_ready :: "vstate \<Rightarrow> ref list \<Rightarrow> vstate \<times> exn option" where
  "remove_ready s [] = (s, None)"
| "remove_ready s (blk # rest) =
     (case set_remove (blocks_pending s) (idf s blk) of
        Inl e \<Rightarrow> (s, Some e)
      | Inr pending \<Rightarrow> remove_ready (s\<lparr>blocks_pending := pending\<rparr>) rest)"

text \<open>The number of parked block objects in the multimap; with the length of the work
  list it bounds the iterations of the two cascade loops.\<close>

definition parked_count :: "(block_id \<times> ref list) list \<Rightarrow> nat" where
  "parked_count m = sum_list (map (\<lambda>kv. length (snd kv)) m)"

lemma parked_count_delete: "parked_count (AList.delete k m) \<le> parked_count m"
  by (induction m) (auto simp: parked_count_def)

lemma parked_count_delete_Some:
  "map_of m k = Some v \<Longrightarrow> parked_count (AList.delete k m) + length v \<le> parked_count m"
proof (induction m)
  case Nil
  then show ?case by simp
next
  case (Cons a m)
  then show ?case
    using parked_count_delete [of k m]
    by (cases a) (auto simp: parked_count_def split: if_splits)
qed

lemma parked_count_pop:
  "length (fst (mm_pop m k [])) + parked_count (snd (mm_pop m k [])) \<le> parked_count m"
  using parked_count_delete_Some [of m k]
  by (auto simp: mm_pop_def split: option.splits)

text \<open>
  The \<open>while blocks_now_invalid\<close> loop of the \<open>Invalid\<close> branch; the work list
  is a Python list, \<open>pop()\<close> takes its last element and \<open>extend\<close> appends.
\<close>

function invalidate_loop :: "vstate \<Rightarrow> ref list \<Rightarrow> vstate \<times> exn option" where
  "invalidate_loop s blocks_now_invalid =
     (if blocks_now_invalid = [] then (s, None)
      else
        let invalid_block = last blocks_now_invalid;
            s1 = set_status s invalid_block Invalid
        in case set_remove (blocks_pending s1) (idf s1 invalid_block) of
             Inl e \<Rightarrow> (s1, Some e)
           | Inr pending \<Rightarrow>
               invalidate_loop
                 (s1\<lparr>blocks_pending := pending,
                     blocks_pending_descendants :=
                       snd (mm_pop (blocks_pending_descendants s1) (idf s1 invalid_block) [])\<rparr>)
                 (butlast blocks_now_invalid
                    @ fst (mm_pop (blocks_pending_descendants s1) (idf s1 invalid_block) [])))"
  by pat_completeness auto
termination
proof (relation "measure (\<lambda>(s, w). length w + parked_count (blocks_pending_descendants s))",
    goal_cases)
  case 1
  show ?case by simp
next
  case (2 s w r s1 pending)
  have "length (butlast w) + 1 = length w"
    using 2(1) by (cases w rule: rev_cases) simp_all
  moreover have "blocks_pending_descendants s1 = blocks_pending_descendants s"
    using 2(3) by (simp add: set_status_def)
  ultimately show ?case
    using parked_count_pop [of "blocks_pending_descendants s" "idf s1 r"]
    by (simp del: length_butlast)
qed

declare invalidate_loop.simps [simp del]

text \<open>
  The \<open>while blocks_to_remove\<close> loop of the last branch, which also deletes each
  block from the block cache; \<open>del\<close> of an absent key raises \<open>KeyError\<close>.
\<close>

function remove_loop :: "vstate \<Rightarrow> ref list \<Rightarrow> vstate \<times> exn option" where
  "remove_loop s blocks_to_remove =
     (if blocks_to_remove = [] then (s, None)
      else
        let block = last blocks_to_remove in
        case set_remove (blocks_pending s) (idf s block) of
          Inl e \<Rightarrow> (s, Some e)
        | Inr pending \<Rightarrow>
            (let s1 = s\<lparr>blocks_pending := pending\<rparr> in
             if block_cache s1 (idf s1 block) = None then (s1, Some KeyError)
             else
               remove_loop
                 (s1\<lparr>block_cache := (block_cache s1)(idf s1 block := None),
                     events := events s1 @ [CacheDelete (idf s1 block)],
                     blocks_pending_descendants :=
                       snd (mm_pop (blocks_pending_descendants s1) (idf s1 block) [])\<rparr>)
                 (butlast blocks_to_remove
                    @ fst (mm_pop (blocks_pending_descendants s1) (idf s1 block) []))))"
  by pat_completeness auto
termination
proof (relation "measure (\<lambda>(s, w). length w + parked_count (blocks_pending_descendants s))",
    goal_cases)
  case 1
  show ?case by simp
next
  case (2 s w r pending s1)
  have "length (butlast w) + 1 = length w"
    using 2(1) by (cases w rule: rev_cases) simp_all
  moreover have "blocks_pending_descendants s1 = blocks_pending_descendants s"
    using 2(4) by simp
  ultimately show ?case
    using parked_count_pop [of "blocks_pending_descendants s" "idf s1 r"]
    by (simp del: length_butlast)
qed

declare remove_loop.simps [simp del]

text \<open>
  \<open>_release_pending\<close>. Removing an identifier that is not in \<open>processing\<close> is
  logged and ignored; every other \<open>KeyError\<close> leaves the function, with the changes
  made so far in place.
\<close>

definition release_pending :: "vstate \<Rightarrow> ref \<Rightarrow> vstate \<times> (exn + ref list)" where
  "release_pending s block =
     (let s1 = (case set_remove (blocks_processing s) (idf s block) of
                  Inl e \<Rightarrow> s
                | Inr processing \<Rightarrow> s\<lparr>blocks_processing := processing\<rparr>)
      in
        if status (heap s1 block) = Valid then
          (let popped = mm_pop (blocks_pending_descendants s1) (idf s1 block) [];
               blocks_now_ready = fst popped
           in case remove_ready (s1\<lparr>blocks_pending_descendants := snd popped\<rparr>)
                     blocks_now_ready of
                (s2, Some e) \<Rightarrow> (s2, Inl e)
              | (s2, None) \<Rightarrow> (s2, Inr blocks_now_ready))
        else if status (heap s1 block) = Invalid then
          (let popped = mm_pop (blocks_pending_descendants s1) (idf s1 block) [];
               blocks_now_invalid = fst popped
           in case invalidate_loop (s1\<lparr>blocks_pending_descendants := snd popped\<rparr>)
                     blocks_now_invalid of
                (s2, Some e) \<Rightarrow> (s2, Inl e)
              | (s2, None) \<Rightarrow> (s2, Inr []))
        else
          (let popped = mm_pop (blocks_pending_descendants s1) (idf s1 block) [];
               blocks_to_remove = fst popped
           in case remove_loop (s1\<lparr>blocks_pending_descendants := snd popped\<rparr>)
                     blocks_to_remove of
                (s2, Some e) \<Rightarrow> (s2, Inl e)
              | (s2, None) \<Rightarrow> (s2, Inr [])))"

section \<open>The worker\<close>

text \<open>
  The \<open>while True\<close> loop of \<open>process_block_verification\<close>. It ends when the
  chain head read after the validation has the identifier of the one read before it (or
  there was none before); otherwise it repeats, so the model takes fuel and returns
  \<open>None\<close> when the fuel runs out. The exceptions of \<open>validate_block\<close> are logged
  and dropped. \<open>current_chain_head.identifier\<close> on \<open>None\<close> raises
  \<open>AttributeError\<close>, which nothing catches.
\<close>

fun validation_loop :: "nat \<Rightarrow> env \<Rightarrow> vstate \<Rightarrow> ref \<Rightarrow> (vstate \<times> exn option) option" where
  "validation_loop 0 env s block = None"
| "validation_loop (Suc fuel) env s block =
     (let chain_head0 = chain_head env (clock s);
          s1 = s\<lparr>clock := clock s + 1\<rparr>;
          s2 = fst (validate_block env s1 block)
      in case chain_head0 of
           None \<Rightarrow> Some (s2, None)
         | Some head_id \<Rightarrow>
             (let current_chain_head = chain_head env (clock s2);
                  s3 = s2\<lparr>clock := clock s2 + 1\<rparr>
              in case current_chain_head of
                   None \<Rightarrow> Some (s3, Some AttributeError)
                 | Some current_id \<Rightarrow>
                     if head_id = current_id then Some (s3, None)
                     else validation_loop fuel env (set_status s3 block Unknown) block))"

definition process_block_verification ::
  "nat \<Rightarrow> env \<Rightarrow> vstate \<Rightarrow> ref \<Rightarrow> callback \<Rightarrow> (vstate \<times> exn option) option" where
  "process_block_verification fuel env s block callback =
     (case validation_loop fuel env s block of
        None \<Rightarrow> None
      | Some (s1, Some e) \<Rightarrow> Some (s1, Some e)
      | Some (s1, None) \<Rightarrow>
          (let s2 = (case release_pending s1 block of
                       (s', Inl e) \<Rightarrow> s'
                     | (s', Inr blocks_now_ready) \<Rightarrow>
                         submit_blocks_for_verification s' blocks_now_ready callback)
           in Some (s2\<lparr>callbacks := callbacks s2 @ [(callback, block)]\<rparr>, None)))"

text \<open>
  Modelled from the spec: the worker pool, whose class is not in the source file. The
  default pool has one worker, which runs the queued jobs in the order of their
  submission; a job that raises ends without stopping the pool. The result is the state
  once the queue is empty.
\<close>

fun run_thread_pool :: "nat \<Rightarrow> env \<Rightarrow> vstate \<Rightarrow> vstate option" where
  "run_thread_pool 0 env s = None"
| "run_thread_pool (Suc fuel) env s =
     (case thread_pool s of
        [] \<Rightarrow> Some s
      | job # rest \<Rightarrow>
          (case process_block_verification (Suc fuel) env (s\<lparr>thread_pool := rest\<rparr>)
                  (fst job) (snd job) of
             None \<Rightarrow> None
           | Some (s', r) \<Rightarrow> run_thread_pool fuel env s'))"

section \<open>Example data\<close>

text \<open>An environment in which every collaborator succeeds, and variants of it.\<close>

definition example_env :: env where
  "example_env =
     \<lparr>NULL_BLOCK_IDENTIFIER = ''0000000000000000'',
      INIT_ROOT_KEY = ''init'',
      chain_commit_state_new = (\<lambda>_. None),
      create_scheduler = (\<lambda>_. None),
      execute = None,
      check_for_duplicate_batches = (\<lambda>_ _. None),
      check_for_duplicate_transactions = (\<lambda>_ _. None),
      check_for_transaction_dependencies = (\<lambda>_ _. None),
      add_batch = (\<lambda>_ _. None),
      finalize = None,
      complete = None,
      get_batch_execution_result = (\<lambda>_. Some \<lparr>is_valid = True, state_hash = ''root1''\<rparr>),
      get_transaction_execution_results = (\<lambda>sig. [''result of '' @ sig]),
      is_batch_signer_authorized = (\<lambda>_ _. Inr True),
      verify_block = (\<lambda>_ _. Inr True),
      enforce_validation_rules = (\<lambda>_ _ _. Inr True),
      chain_head = (\<lambda>_. Some ''B0''),
      generator_stop = True\<rparr>"

text \<open>The scheduler has no result for any batch but \<open>a1\<close>.\<close>

definition env_missing_result :: env where
  "env_missing_result =
     example_env\<lparr>get_batch_execution_result :=
       (\<lambda>sig. if sig = ''a1'' then Some \<lparr>is_valid = True, state_hash = ''root1''\<rparr> else None)\<rparr>"

text \<open>The chain commit state finds a batch that is already committed.\<close>

definition env_duplicate_batch :: env where
  "env_duplicate_batch =
     example_env\<lparr>check_for_duplicate_batches := (\<lambda>_ _. Some DuplicateBatch)\<rparr>"

text \<open>The consensus module rejects every block.\<close>

definition env_reject :: env where
  "env_reject = example_env\<lparr>verify_block := (\<lambda>_ _. Inr False)\<rparr>"

text \<open>The consensus module raises an unexpected exception on every block.\<close>

definition env_error :: env where
  "env_error = example_env\<lparr>verify_block := (\<lambda>_ _. Inl OtherException)\<rparr>"

definition example_batch1 :: Batch where
  "example_batch1 = \<lparr>header_signature = ''a1'', transactions = [''t1'', ''t2'']\<rparr>"

definition example_batch2 :: Batch where
  "example_batch2 = \<lparr>header_signature = ''a2'', transactions = [''t3'']\<rparr>"

definition example_block ::
  "block_id \<Rightarrow> block_id \<Rightarrow> Batch list \<Rightarrow> BlockStatus \<Rightarrow> BlockWrapper" where
  "example_block bid prev bs st =
     \<lparr>identifier = bid, previous_block_id = prev, block_num = 1,
      state_root_hash = ''root1'', signer_public_key = ''key'', batches = bs,
      status = st, execution_results = [], num_transactions = 0\<rparr>"

text \<open>
  The chain \<open>B0\<close>, \<open>B1\<close>, \<open>B2\<close>, \<open>B3\<close> as the objects 0 to 3, all in the
  block cache, \<open>B0\<close> with the status \<open>st0\<close> and \<open>B1\<close> with the status
  \<open>st1\<close>; nothing is tracked.
\<close>

definition example_state :: "BlockStatus \<Rightarrow> BlockStatus \<Rightarrow> vstate" where
  "example_state st0 st1 =
     \<lparr>heap = (\<lambda>_. example_block ''B0'' ''0000000000000000'' [] st0)
        (1 := example_block ''B1'' ''B0'' [example_batch1, example_batch2] st1,
         2 := example_block ''B2'' ''B1'' [] Unknown,
         3 := example_block ''B3'' ''B2'' [] Unknown),
      block_cache = [''B0'' \<mapsto> 0, ''B1'' \<mapsto> 1, ''B2'' \<mapsto> 2, ''B3'' \<mapsto> 3],
      blocks_processing = {},
      blocks_pending = {},
      blocks_pending_descendants = [],
      blocks_processing_gauge = 0,
      blocks_pending_gauge = 0,
      thread_pool = [],
      callbacks = [],
      events = [],
      clock = 0\<rparr>"

lemmas example_defs = example_env_def env_missing_result_def env_duplicate_batch_def
  env_reject_def env_error_def example_batch1_def example_batch2_def example_block_def example_state_def

section \<open>look_ahead\<close>

lemma look_ahead_loop_zip:
  "look_ahead_loop x xs = zip (x # xs) (replicate (length xs) True @ [False])"
  by (induction xs arbitrary: x) simp_all

text \<open>
  C10, as the claim states it, fails where PEP 479 is not in force (Python 3.6 and
  earlier): the \<open>StopIteration\<close> of the initial \<open>next()\<close> ends the iteration, and
  the consumer of \<open>look_ahead\<close> on the empty sequence gets an empty stream and no
  exception.
\<close>

theorem look_ahead_empty_counterexample:
  "look_ahead False ([] :: nat list) = Inr []"
  by (simp add: look_ahead_def look_ahead_body_def)

text \<open>
  C10, amended. For a non-empty sequence \<open>look_ahead\<close> yields its elements in order,
  each paired with True except the last, which is paired with False, whatever the
  interpreter. For the empty sequence the \<open>StopIteration\<close> of the initial
  \<open>next()\<close> leaves the generator body; where PEP 479 is in force the consumer gets
  \<open>RuntimeError\<close>, and where it is not the consumer gets an empty stream.
\<close>

theorem look_ahead_spec:
  "(xs \<noteq> [] \<longrightarrow>
      look_ahead pep479 xs
        = Inr (zip xs (replicate (length xs - 1) True @ [False])))
   \<and> look_ahead_body ([] :: 'a list) = Inl StopIteration
   \<and> look_ahead True ([] :: 'a list) = Inl RuntimeError
   \<and> look_ahead False ([] :: 'a list) = Inr []"
proof -
  have e: "look_ahead_body ([] :: 'a list) = Inl StopIteration"
    by (simp add: look_ahead_body_def)
  have t: "look_ahead True ([] :: 'a list) = Inl RuntimeError"
    and f: "look_ahead False ([] :: 'a list) = Inr []"
    by (simp_all add: look_ahead_def e)
  have n: "look_ahead pep479 xs
      = Inr (zip xs (replicate (length xs - 1) True @ [False]))"
    if "xs \<noteq> []"
    using that
    by (cases xs) (simp_all add: look_ahead_def look_ahead_body_def look_ahead_loop_zip)
  from e t f n show ?thesis by blast
qed

theorem look_ahead_spec_witness:
  "look_ahead True [1::nat, 2, 3] = Inr [(1, True), (2, True), (3, False)]
   \<and> look_ahead False [1::nat, 2, 3] = Inr [(1, True), (2, True), (3, False)]
   \<and> look_ahead True ([] :: nat list) = Inl RuntimeError"
proof -
  have ne: "[1::nat, 2, 3] \<noteq> []" by simp
  have z: "zip [1::nat, 2, 3] (replicate (length [1::nat, 2, 3] - 1) True @ [False])
      = [(1, True), (2, True), (3, False)]"
    by simp
  from look_ahead_spec [of "[1::nat, 2, 3]" True] ne
  have a: "look_ahead True [1::nat, 2, 3] = Inr [(1, True), (2, True), (3, False)]"
    and c: "look_ahead True ([] :: nat list) = Inl RuntimeError"
    unfolding z by blast+
  from look_ahead_spec [of "[1::nat, 2, 3]" False] ne
  have b: "look_ahead False [1::nat, 2, 3] = Inr [(1, True), (2, True), (3, False)]"
    unfolding z by blast
  from a b c show ?thesis by blast
qed

section \<open>Batch validation: the scheduler and the block's fields\<close>

lemma add_batches_events:
  "add_batches env root ps = (ev, r) \<Longrightarrow>
     Cancel \<notin> set ev \<and> Finalize \<notin> set ev \<and> Complete \<notin> set ev \<and> Execute \<notin> set ev"
  by (induction ps arbitrary: ev r)
     (auto simp: Let_def split: option.splits prod.splits if_splits)

lemma schedule_batches_events:
  assumes "schedule_batches env blkw root = (ev, created, r)"
  shows "Cancel \<notin> set ev" and "Finalize \<notin> set ev" and "Complete \<notin> set ev"
    and "created \<longleftrightarrow> Execute \<in> set ev"
  using assms
  by (auto simp: schedule_batches_def Let_def dest!: add_batches_events
        split: option.splits sum.splits prod.splits)

text \<open>
  C8. A block without batches passes \<open>_validate_batches_in_block\<close> with no call on
  any collaborator (no chain commit state, no scheduler) and with the block unchanged,
  whatever its declared state root and the previous state root are.
\<close>

theorem empty_block_short_circuit:
  "batches blkw = [] \<Longrightarrow>
     validate_batches_in_block env blkw prev_state_root = (blkw, [], None)"
  by (simp add: validate_batches_in_block_def)

theorem empty_block_short_circuit_witness:
  "batches (example_block ''B2'' ''B1'' [] Unknown) = []
   \<and> validate_batches_in_block env_duplicate_batch
        (example_block ''B2'' ''B1'' [] Unknown) ''another root''
     = (example_block ''B2'' ''B1'' [] Unknown, [], None)"
  using empty_block_short_circuit
    [of "example_block ''B2'' ''B1'' [] Unknown" env_duplicate_batch "''another root''"]
  by (simp add: example_block_def)

text \<open>
  C4, as the claim states it, fails: when the scheduler has no result for a batch, the
  failure is raised after \<open>finalize\<close> and \<open>complete\<close>, outside the \<open>try\<close>, and
  the scheduler that was created is not cancelled.
\<close>

theorem cancel_after_completion_counterexample:
  "validate_batches_in_block env_missing_result
     (example_block ''B1'' ''B0'' [example_batch1, example_batch2] Unknown) ''root0''
   = ((example_block ''B1'' ''B0'' [example_batch1, example_batch2] Unknown)
        \<lparr>execution_results := [''result of a1''], num_transactions := 2\<rparr>,
      [ChainCommitStateNew ''B0'', CreateScheduler ''root0'', Execute, CheckDuplicateBatches,
       CheckDuplicateTransactions, CheckTransactionDependencies, AddBatch ''a1'' None,
       AddBatch ''a2'' (Some ''root1''), Finalize, Complete],
      Some BlockValidationFailure)
   \<and> Cancel \<notin> set (fst (snd (validate_batches_in_block env_missing_result
     (example_block ''B1'' ''B0'' [example_batch1, example_batch2] Unknown) ''root0'')))"
  by (simp add: example_defs validate_batches_in_block_def schedule_batches_def look_ahead_def look_ahead_body_def)

text \<open>
  C4, amended. When \<open>_validate_batches_in_block\<close> ends with an exception, the
  scheduler was created and handed to the executor, and \<open>finalize\<close> was not reached
  (the exception left the \<open>try\<close>: a duplicate batch, a duplicate transaction, a missing
  dependency or anything else), then \<open>cancel\<close> is the last call made, and it is made
  once. When \<open>finalize\<close> was reached, \<open>cancel\<close> is not called.
\<close>

theorem cancel_on_exceptions_before_finalize:
  assumes "validate_batches_in_block env blkw prev_state_root = (blkw', ev, Some e)"
  shows "(Execute \<in> set ev \<and> Finalize \<notin> set ev \<longrightarrow>
            ev \<noteq> [] \<and> last ev = Cancel \<and> Cancel \<notin> set (butlast ev))
       \<and> (Finalize \<in> set ev \<longrightarrow> Cancel \<notin> set ev)"
proof (cases "batches blkw = []")
  case True
  then show ?thesis using assms by (simp add: validate_batches_in_block_def)
next
  case False
  obtain ev0 created r where sb: "schedule_batches env blkw prev_state_root = (ev0, created, r)"
    by (cases "schedule_batches env blkw prev_state_root") auto
  note evs = schedule_batches_events [OF sb]
  show ?thesis
  proof (cases r)
    case (Some err)
    then have "ev = (if created then ev0 @ [Cancel] else ev0)"
      using assms False sb by (auto simp: validate_batches_in_block_def Let_def split: if_splits)
    then show ?thesis using evs by (auto split: if_splits)
  next
    case None
    then have "ev = ev0 @ [Finalize] \<or> ev = ev0 @ [Finalize, Complete]"
      using assms False sb
      by (auto simp: validate_batches_in_block_def Let_def
            split: if_splits option.splits prod.splits)
    then show ?thesis using evs by auto
  qed
qed

theorem cancel_on_exceptions_before_finalize_witness:
  "validate_batches_in_block env_duplicate_batch
     (example_block ''B1'' ''B0'' [example_batch1, example_batch2] Unknown) ''root0''
   = (example_block ''B1'' ''B0'' [example_batch1, example_batch2] Unknown,
      [ChainCommitStateNew ''B0'', CreateScheduler ''root0'', Execute, CheckDuplicateBatches,
       Cancel],
      Some BlockValidationFailure)
   \<and> last [ChainCommitStateNew ''B0'', CreateScheduler ''root0'', Execute,
       CheckDuplicateBatches, Cancel] = Cancel"
  using cancel_on_exceptions_before_finalize
    [of env_duplicate_batch
        "example_block ''B1'' ''B0'' [example_batch1, example_batch2] Unknown" "''root0''"
        "example_block ''B1'' ''B0'' [example_batch1, example_batch2] Unknown"
        "[ChainCommitStateNew ''B0'', CreateScheduler ''root0'', Execute,
          CheckDuplicateBatches, Cancel]"
        BlockValidationFailure]
  by (simp add: example_defs validate_batches_in_block_def schedule_batches_def)

text \<open>The batches whose results the loop after completion accumulates: the longest
  prefix of the block's batches that have a valid execution result.\<close>

definition valid_prefix :: "env \<Rightarrow> Batch list \<Rightarrow> Batch list" where
  "valid_prefix env bs =
     takeWhile (\<lambda>b. case get_batch_execution_result env (header_signature b) of
                       None \<Rightarrow> False
                     | Some batch_result \<Rightarrow> is_valid batch_result) bs"

lemma collect_results_prefix:
  "collect_results env bs blkw sh = (blkw', sh', r) \<Longrightarrow>
     execution_results blkw' = execution_results blkw
        @ concat (map (\<lambda>b. get_transaction_execution_results env (header_signature b))
                    (valid_prefix env bs))
     \<and> num_transactions blkw' = num_transactions blkw
        + sum_list (map (\<lambda>b. length (transactions b)) (valid_prefix env bs))
     \<and> status blkw' = status blkw
     \<and> (r = None \<or> r = Some BlockValidationFailure)"
proof (induction bs arbitrary: blkw sh)
  case Nil
  then show ?case by (simp add: valid_prefix_def)
next
  case (Cons b bs)
  show ?case
  proof (cases "get_batch_execution_result env (header_signature b)")
    case None
    then show ?thesis using Cons.prems by (auto simp: valid_prefix_def)
  next
    case (Some res)
    show ?thesis
    proof (cases "is_valid res")
      case False
      then show ?thesis using Cons.prems Some by (auto simp: valid_prefix_def)
    next
      case True
      then show ?thesis
        using Cons.prems Some Cons.IH
          [of "blkw\<lparr>execution_results := execution_results blkw
                  @ get_transaction_execution_results env (header_signature b),
                num_transactions := num_transactions blkw + length (transactions b)\<rparr>"
              "Some (state_hash res)"]
        by (simp add: valid_prefix_def Let_def)
    qed
  qed
qed

text \<open>
  C9. When \<open>_validate_batches_in_block\<close> fails after the scheduler has completed (a
  missing or invalid batch result, or a state root mismatch), the exception is
  \<open>BlockValidationFailure\<close> and the block keeps what the loop has accumulated: the
  transaction results of the valid batches before the failing one are appended to
  \<open>execution_results\<close>, and their transactions are counted in
  \<open>num_transactions\<close>.
\<close>

theorem failure_after_completion_keeps_results:
  assumes "validate_batches_in_block env blkw prev_state_root = (blkw', ev, Some e)"
    and "Complete \<in> set ev" and "complete env = None"
  shows "e = BlockValidationFailure
     \<and> execution_results blkw' = execution_results blkw
        @ concat (map (\<lambda>b. get_transaction_execution_results env (header_signature b))
                    (valid_prefix env (batches blkw)))
     \<and> num_transactions blkw' = num_transactions blkw
        + sum_list (map (\<lambda>b. length (transactions b)) (valid_prefix env (batches blkw)))"
proof -
  have ne: "batches blkw \<noteq> []"
    using assms(1,2) by (auto simp: validate_batches_in_block_def)
  obtain ev0 created r where sb: "schedule_batches env blkw prev_state_root = (ev0, created, r)"
    by (cases "schedule_batches env blkw prev_state_root") auto
  note evs = schedule_batches_events [OF sb]
  have r: "r = None"
  proof (cases r)
    case (Some err)
    then have "ev = (if created then ev0 @ [Cancel] else ev0)"
      using assms(1) ne sb by (auto simp: validate_batches_in_block_def Let_def split: if_splits)
    then show ?thesis using evs assms(2) by (auto split: if_splits)
  qed simp
  have f: "finalize env = None"
    using assms(1,2) ne sb r evs
    by (cases "finalize env") (auto simp: validate_batches_in_block_def)
  obtain b1 sh1 r1 where cr: "collect_results env (batches blkw) blkw None = (b1, sh1, r1)"
    by (cases "collect_results env (batches blkw) blkw None") auto
  have "blkw' = b1" and "e = BlockValidationFailure"
    using assms(1,3) ne sb r f cr collect_results_prefix [OF cr]
    by (auto simp: validate_batches_in_block_def Let_def split: if_splits option.splits)
  then show ?thesis using collect_results_prefix [OF cr] by simp
qed

theorem failure_after_completion_keeps_results_witness:
  "snd (snd (validate_batches_in_block env_missing_result
      (example_block ''B1'' ''B0'' [example_batch1, example_batch2] Unknown) ''root0''))
     = Some BlockValidationFailure
   \<and> Complete \<in> set (fst (snd (validate_batches_in_block env_missing_result
      (example_block ''B1'' ''B0'' [example_batch1, example_batch2] Unknown) ''root0'')))
   \<and> execution_results (fst (validate_batches_in_block env_missing_result
      (example_block ''B1'' ''B0'' [example_batch1, example_batch2] Unknown) ''root0''))
     = [''result of a1'']
   \<and> num_transactions (fst (validate_batches_in_block env_missing_result
      (example_block ''B1'' ''B0'' [example_batch1, example_batch2] Unknown) ''root0'')) = 2"
  using failure_after_completion_keeps_results
    [of env_missing_result "example_block ''B1'' ''B0'' [example_batch1, example_batch2] Unknown"
        "''root0''"]
  by (simp add: example_defs validate_batches_in_block_def schedule_batches_def look_ahead_def look_ahead_body_def
      valid_prefix_def)

section \<open>validate_block: the status after each outcome\<close>





section \<open>Submission and the trackers\<close>

text \<open>
  C1. The claim holds in the specification and fails in the code: the branch for a
  predecessor that is in the block cache with status \<open>Unknown\<close> (lines 392 to 397) parks
  the block but, unlike the three branches before it, has no \<open>continue\<close>, so the block is
  admitted and dispatched as well. Here \<open>B1\<close> (object 1) is submitted while \<open>B0\<close> is in
  the cache with status \<open>Unknown\<close> and is neither in processing nor pending.
\<close>

theorem unknown_predecessor_parked_and_admitted:
  "blocks_pending (submit_blocks_for_verification (example_state Unknown Unknown) [1] 7)
     = {''B1''}
   \<and> blocks_pending_descendants
       (submit_blocks_for_verification (example_state Unknown Unknown) [1] 7)
     = [(''B0'', [1])]
   \<and> blocks_processing (submit_blocks_for_verification (example_state Unknown Unknown) [1] 7)
     = {''B1''}
   \<and> thread_pool (submit_blocks_for_verification (example_state Unknown Unknown) [1] 7)
     = [(1, 7)]"
  by (simp add: example_defs in_process_def in_pending_def add_block_to_pending_def
      append_if_unique_def update_gauges_def Let_def)

text \<open>
  A submitted block would take the branch of lines 392 to 397 when its predecessor is in
  the block cache with status \<open>Unknown\<close> and is not tracked; \<open>T\<close> is the set of the
  tracked identifiers. In \<open>no_unknown_branch\<close> the blocks of a submission are taken in
  order, and each of them is tracked (in processing or in pending) once the loop has
  handled it.
\<close>

definition unvalidated_untracked :: "vstate \<Rightarrow> block_id set \<Rightarrow> ref \<Rightarrow> bool" where
  "unvalidated_untracked s T block =
     (let previous = previous_block_id (heap s block) in
      previous \<notin> T
      \<and> (case block_cache s previous of
            None \<Rightarrow> False
          | Some prev_block \<Rightarrow> status (heap s prev_block) = Unknown))"

fun no_unknown_branch :: "vstate \<Rightarrow> block_id set \<Rightarrow> ref list \<Rightarrow> bool" where
  "no_unknown_branch s T [] = True"
| "no_unknown_branch s T (block # blocks) =
     (\<not> unvalidated_untracked s T block
      \<and> no_unknown_branch s (insert (idf s block) T) blocks)"

lemma add_block_to_pending_fields:
  "heap (add_block_to_pending s b) = heap s"
  "block_cache (add_block_to_pending s b) = block_cache s"
  "blocks_processing (add_block_to_pending s b) = blocks_processing s"
  "blocks_pending (add_block_to_pending s b) = insert (idf s b) (blocks_pending s)"
  "thread_pool (add_block_to_pending s b) = thread_pool s"
  "callbacks (add_block_to_pending s b) = callbacks s"
  by (simp_all add: add_block_to_pending_def Let_def)

lemma remove_ready_shrinks:
  "blocks_processing (fst (remove_ready s w)) = blocks_processing s
   \<and> blocks_pending (fst (remove_ready s w)) \<subseteq> blocks_pending s"
  by (induction s w rule: remove_ready.induct)
     (auto simp: set_remove_def split: sum.splits if_splits)

lemma set_status_fields:
  "idf (set_status s r st) x = idf s x"
  "block_cache (set_status s r st) = block_cache s"
  "blocks_processing (set_status s r st) = blocks_processing s"
  "blocks_pending (set_status s r st) = blocks_pending s"
  "blocks_pending_descendants (set_status s r st) = blocks_pending_descendants s"
  "thread_pool (set_status s r st) = thread_pool s"
  "callbacks (set_status s r st) = callbacks s"
  "clock (set_status s r st) = clock s"
  by (auto simp: set_status_def)

definition invalidate_step :: "vstate \<Rightarrow> ref \<Rightarrow> vstate" where
  "invalidate_step s r =
     (set_status s r Invalid)
       \<lparr>blocks_pending := blocks_pending s - {idf s r},
        blocks_pending_descendants := snd (mm_pop (blocks_pending_descendants s) (idf s r) [])\<rparr>"

lemma invalidate_loop_Nil: "invalidate_loop s [] = (s, None)"
  by (simp add: invalidate_loop.simps)

lemma invalidate_loop_KeyError:
  "w \<noteq> [] \<Longrightarrow> idf s (last w) \<notin> blocks_pending s \<Longrightarrow>
     invalidate_loop s w = (set_status s (last w) Invalid, Some KeyError)"
  by (subst invalidate_loop.simps) (simp add: Let_def set_remove_def set_status_fields)

lemma invalidate_loop_step:
  "w \<noteq> [] \<Longrightarrow> idf s (last w) \<in> blocks_pending s \<Longrightarrow>
     invalidate_loop s w =
       invalidate_loop (invalidate_step s (last w))
         (butlast w @ fst (mm_pop (blocks_pending_descendants s) (idf s (last w)) []))"
  by (subst invalidate_loop.simps)
     (simp add: Let_def set_remove_def set_status_fields invalidate_step_def)

lemma invalidate_loop_shrinks:
  "blocks_processing (fst (invalidate_loop s w)) = blocks_processing s
   \<and> blocks_pending (fst (invalidate_loop s w)) \<subseteq> blocks_pending s"
proof (induction s w rule: invalidate_loop.induct)
  case (1 s w)
  show ?case
  proof (cases "w = []")
    case True
    then show ?thesis by (simp add: invalidate_loop_Nil)
  next
    case False
    show ?thesis
    proof (cases "idf s (last w) \<in> blocks_pending s")
      case False
      then show ?thesis using \<open>w \<noteq> []\<close>
        by (simp add: invalidate_loop_KeyError set_status_fields)
    next
      case True
      have "set_remove (blocks_pending (set_status s (last w) Invalid))
              (idf (set_status s (last w) Invalid) (last w))
            = Inr (blocks_pending s - {idf s (last w)})"
        using True by (simp add: set_remove_def set_status_fields)
      from 1 [OF False refl refl this]
      show ?thesis
        using False True
        by (auto simp: invalidate_loop_step invalidate_step_def set_status_fields)
    qed
  qed
qed


definition remove_step :: "vstate \<Rightarrow> ref \<Rightarrow> vstate" where
  "remove_step s r =
     s\<lparr>blocks_pending := blocks_pending s - {idf s r},
       block_cache := (block_cache s)(idf s r := None),
       events := events s @ [CacheDelete (idf s r)],
       blocks_pending_descendants := snd (mm_pop (blocks_pending_descendants s) (idf s r) [])\<rparr>"

lemma remove_loop_Nil: "remove_loop s [] = (s, None)"
  by (simp add: remove_loop.simps)

lemma remove_loop_KeyError_pending:
  "w \<noteq> [] \<Longrightarrow> idf s (last w) \<notin> blocks_pending s \<Longrightarrow>
     remove_loop s w = (s, Some KeyError)"
  by (subst remove_loop.simps) (simp add: Let_def set_remove_def)

lemma remove_loop_KeyError_cache:
  "w \<noteq> [] \<Longrightarrow> idf s (last w) \<in> blocks_pending s \<Longrightarrow>
   block_cache s (idf s (last w)) = None \<Longrightarrow>
     remove_loop s w = (s\<lparr>blocks_pending := blocks_pending s - {idf s (last w)}\<rparr>, Some KeyError)"
  by (subst remove_loop.simps) (simp add: Let_def set_remove_def)

lemma remove_loop_step:
  "w \<noteq> [] \<Longrightarrow> idf s (last w) \<in> blocks_pending s \<Longrightarrow>
   block_cache s (idf s (last w)) \<noteq> None \<Longrightarrow>
     remove_loop s w =
       remove_loop (remove_step s (last w))
         (butlast w @ fst (mm_pop (blocks_pending_descendants s) (idf s (last w)) []))"
  by (subst remove_loop.simps) (auto simp: Let_def set_remove_def remove_step_def)

lemma remove_loop_shrinks:
  "blocks_processing (fst (remove_loop s w)) = blocks_processing s
   \<and> blocks_pending (fst (remove_loop s w)) \<subseteq> blocks_pending s"
proof (induction s w rule: remove_loop.induct)
  case (1 s w)
  show ?case
  proof (cases "w = []")
    case True
    then show ?thesis by (simp add: remove_loop_Nil)
  next
    case ne: False
    show ?thesis
    proof (cases "idf s (last w) \<in> blocks_pending s")
      case False
      then show ?thesis using ne by (simp add: remove_loop_KeyError_pending)
    next
      case True
      show ?thesis
      proof (cases "block_cache s (idf s (last w)) = None")
        case c: True
        then show ?thesis using ne True by (auto simp: remove_loop_KeyError_cache)
      next
        case c: False
        have "set_remove (blocks_pending s) (idf s (last w))
              = Inr (blocks_pending s - {idf s (last w)})"
          using True by (simp add: set_remove_def)
        from 1 [OF ne refl this refl] c
        show ?thesis
          using ne True by (auto simp: remove_loop_step remove_step_def)
      qed
    qed
  qed
qed

lemma release_pending_shrinks:
  "blocks_processing (fst (release_pending s block)) \<subseteq> blocks_processing s
   \<and> blocks_pending (fst (release_pending s block)) \<subseteq> blocks_pending s"
proof -
  let ?s1 = "case set_remove (blocks_processing s) (idf s block) of
               Inl e \<Rightarrow> s | Inr processing \<Rightarrow> s\<lparr>blocks_processing := processing\<rparr>"
  let ?s2 = "?s1\<lparr>blocks_pending_descendants :=
                snd (mm_pop (blocks_pending_descendants ?s1) (idf ?s1 block) [])\<rparr>"
  let ?w = "fst (mm_pop (blocks_pending_descendants ?s1) (idf ?s1 block) [])"
  have s2: "blocks_processing ?s2 \<subseteq> blocks_processing s" "blocks_pending ?s2 = blocks_pending s"
    by (auto simp: set_remove_def split: if_splits)
  have "fst (release_pending s block) = fst (remove_ready ?s2 ?w)
      \<or> fst (release_pending s block) = fst (invalidate_loop ?s2 ?w)
      \<or> fst (release_pending s block) = fst (remove_loop ?s2 ?w)"
    by (auto simp: release_pending_def Let_def split: prod.splits option.splits)
  then show ?thesis
    using s2 remove_ready_shrinks [of ?s2 ?w] invalidate_loop_shrinks [of ?s2 ?w]
      remove_loop_shrinks [of ?s2 ?w]
    by auto
qed

lemma no_unknown_branch_cong:
  "heap s' = heap s \<Longrightarrow> block_cache s' = block_cache s \<Longrightarrow>
     no_unknown_branch s' T blocks = no_unknown_branch s T blocks"
  by (induction blocks arbitrary: T)
     (simp_all add: unvalidated_untracked_def cong: option.case_cong)

lemma submit_preserves_disjoint:
  assumes "blocks_processing s \<inter> blocks_pending s = {}"
    and "distinct (map (idf s) blocks)"
    and "\<forall>b\<in>set blocks. idf s b \<notin> blocks_pending s"
    and "no_unknown_branch s T blocks"
    and "T \<subseteq> blocks_processing s \<union> blocks_pending s"
  shows "blocks_processing (submit_blocks_for_verification s blocks cb)
         \<inter> blocks_pending (submit_blocks_for_verification s blocks cb) = {}"
  using assms
proof (induction blocks arbitrary: s T)
  case Nil
  then show ?case by simp
next
  case (Cons b bs)
  let ?prev = "previous_block_id (heap s b)"
  have b: "idf s b \<notin> blocks_pending s" "\<not> unvalidated_untracked s T b"
    and nb: "idf s b \<notin> idf s ` set bs" and d: "distinct (map (idf s) bs)"
    and rest: "\<forall>x\<in>set bs. idf s x \<notin> blocks_pending s"
    and nub: "no_unknown_branch s (insert (idf s b) T) bs"
    using Cons.prems by auto
  show ?case
  proof (cases "in_process s (idf s b)")
    case True
    have "insert (idf s b) T \<subseteq> blocks_processing s \<union> blocks_pending s"
      using True Cons.prems(5) by (auto simp: in_process_def)
    from Cons.IH [OF Cons.prems(1) d rest nub this]
    show ?thesis using True by simp
  next
    case np: False
    let ?p = "add_block_to_pending s b"
    have park: "blocks_processing (submit_blocks_for_verification ?p bs cb)
         \<inter> blocks_pending (submit_blocks_for_verification ?p bs cb) = {}"
    proof (rule Cons.IH)
      show "blocks_processing ?p \<inter> blocks_pending ?p = {}"
        using Cons.prems(1) np by (auto simp: add_block_to_pending_fields in_process_def)
      show "distinct (map (idf ?p) bs)"
        using d by (simp add: add_block_to_pending_fields)
      show "\<forall>x\<in>set bs. idf ?p x \<notin> blocks_pending ?p"
      proof
        fix x assume x: "x \<in> set bs"
        have "idf s x \<noteq> idf s b"
          using nb x by (metis imageI)
        then show "idf ?p x \<notin> blocks_pending ?p"
          using rest x by (simp add: add_block_to_pending_fields)
      qed
      show "no_unknown_branch ?p (insert (idf s b) T) bs"
        using nub no_unknown_branch_cong [of ?p s]
        by (simp add: add_block_to_pending_fields)
      show "insert (idf s b) T \<subseteq> blocks_processing ?p \<union> blocks_pending ?p"
        using Cons.prems(5) by (auto simp: add_block_to_pending_fields)
    qed
    show ?thesis
    proof (cases "in_process s ?prev \<or> in_pending s ?prev \<or> block_cache s ?prev = None")
      case True
      then show ?thesis using np park by auto
    next
      case False
      then obtain p where p: "block_cache s ?prev = Some p" by auto
      have "?prev \<notin> T"
        using False Cons.prems(5) by (auto simp: in_process_def in_pending_def)
      then have st: "status (heap s p) \<noteq> Unknown"
        using b(2) p by (auto simp: unvalidated_untracked_def)
      let ?a = "(update_gauges (s\<lparr>blocks_processing := insert (idf s b) (blocks_processing s)\<rparr>))
                  \<lparr>thread_pool := thread_pool s @ [(b, cb)]\<rparr>"
      have eq: "submit_blocks_for_verification s (b # bs) cb
            = submit_blocks_for_verification ?a bs cb"
        using np False p st by (simp add: Let_def update_gauges_def)
      have "blocks_processing (submit_blocks_for_verification ?a bs cb)
         \<inter> blocks_pending (submit_blocks_for_verification ?a bs cb) = {}"
      proof (rule Cons.IH)
        show "blocks_processing ?a \<inter> blocks_pending ?a = {}"
          using Cons.prems(1) b(1) by (auto simp: update_gauges_def)
        show "distinct (map (idf ?a) bs)"
          using d by (simp add: update_gauges_def)
        show "\<forall>x\<in>set bs. idf ?a x \<notin> blocks_pending ?a"
          using rest by (simp add: update_gauges_def)
        show "no_unknown_branch ?a (insert (idf s b) T) bs"
          using nub no_unknown_branch_cong [of ?a s]
          by (simp add: update_gauges_def)
        show "insert (idf s b) T \<subseteq> blocks_processing ?a \<union> blocks_pending ?a"
          using Cons.prems(5) by (auto simp: update_gauges_def)
      qed
      then show ?thesis using eq by simp
    qed
  qed
qed

text \<open>
  C2, as the claim states it, fails for submission: a block that is parked under a
  predecessor that was missing from the block cache, and is submitted again once the
  predecessor is in the cache with status \<open>Valid\<close>, is admitted without being taken out
  of pending. Here \<open>B1\<close> is pending under \<open>B0\<close>, the trackers are disjoint, and after
  the submission \<open>B1\<close> is in both.
\<close>

theorem resubmitted_pending_block_counterexample:
  "blocks_processing ((example_state Valid Unknown)
       \<lparr>blocks_pending := {''B1''}, blocks_pending_descendants := [(''B0'', [1])]\<rparr>)
     \<inter> blocks_pending ((example_state Valid Unknown)
       \<lparr>blocks_pending := {''B1''}, blocks_pending_descendants := [(''B0'', [1])]\<rparr>) = {}
   \<and> blocks_processing (submit_blocks_for_verification ((example_state Valid Unknown)
       \<lparr>blocks_pending := {''B1''}, blocks_pending_descendants := [(''B0'', [1])]\<rparr>) [1] 7)
     \<inter> blocks_pending (submit_blocks_for_verification ((example_state Valid Unknown)
       \<lparr>blocks_pending := {''B1''}, blocks_pending_descendants := [(''B0'', [1])]\<rparr>) [1] 7)
     = {''B1''}"
  by (simp add: example_defs in_process_def in_pending_def update_gauges_def Let_def)

text \<open>
  C2, amended. From a state in which processing and pending are disjoint: the cascade
  resolver keeps them disjoint, whatever the block's status and also when it raises;
  parking a block that is not in processing keeps them disjoint; and a submission keeps
  them disjoint when the submitted blocks have pairwise distinct identifiers, none of
  them is already pending, and none of them takes the branch of lines 392 to 397 (every
  predecessor that is in the cache with status \<open>Unknown\<close> is in processing, in pending,
  or earlier in the same submission).
\<close>

theorem trackers_disjoint_preserved:
  assumes "blocks_processing s \<inter> blocks_pending s = {}"
  shows "blocks_processing (fst (release_pending s block))
           \<inter> blocks_pending (fst (release_pending s block)) = {}
     \<and> (idf s block \<notin> blocks_processing s \<longrightarrow>
          blocks_processing (add_block_to_pending s block)
            \<inter> blocks_pending (add_block_to_pending s block) = {})
     \<and> (distinct (map (idf s) blocks)
          \<and> (\<forall>b\<in>set blocks. idf s b \<notin> blocks_pending s)
          \<and> no_unknown_branch s (blocks_processing s \<union> blocks_pending s) blocks \<longrightarrow>
          blocks_processing (submit_blocks_for_verification s blocks callback)
            \<inter> blocks_pending (submit_blocks_for_verification s blocks callback) = {})"
proof -
  have "blocks_processing (fst (release_pending s block))
           \<inter> blocks_pending (fst (release_pending s block)) = {}"
    using assms release_pending_shrinks [of s block] by blast
  moreover have "blocks_processing (add_block_to_pending s block)
            \<inter> blocks_pending (add_block_to_pending s block) = {}"
    if "idf s block \<notin> blocks_processing s"
    using assms that by (simp add: add_block_to_pending_fields)
  ultimately show ?thesis
    using submit_preserves_disjoint [OF assms, of blocks _ callback] by blast
qed

theorem trackers_disjoint_preserved_witness:
  "blocks_processing (example_state Valid Unknown)
     \<inter> blocks_pending (example_state Valid Unknown) = {}
   \<and> distinct (map (idf (example_state Valid Unknown)) [1, 2, 3])
   \<and> no_unknown_branch (example_state Valid Unknown) {} [1, 2, 3]
   \<and> blocks_processing (submit_blocks_for_verification (example_state Valid Unknown) [1, 2, 3] 7)
      = {''B1''}
   \<and> blocks_pending (submit_blocks_for_verification (example_state Valid Unknown) [1, 2, 3] 7)
      = {''B3'', ''B2''}
   \<and> blocks_processing (submit_blocks_for_verification (example_state Valid Unknown) [1, 2, 3] 7)
     \<inter> blocks_pending (submit_blocks_for_verification (example_state Valid Unknown) [1, 2, 3] 7)
     = {}"
proof -
  let ?s = "example_state Valid Unknown"
  have h: "blocks_processing ?s \<inter> blocks_pending ?s = {}"
    "distinct (map (idf ?s) [1, 2, 3])"
    "\<forall>b\<in>set [1, 2, 3]. idf ?s b \<notin> blocks_pending ?s"
    "no_unknown_branch ?s {} [1, 2, 3]"
    "blocks_processing ?s \<union> blocks_pending ?s = {}"
    by (simp_all add: unvalidated_untracked_def example_defs)
  have e: "blocks_processing (submit_blocks_for_verification ?s [1, 2, 3] 7) = {''B1''}"
    "blocks_pending (submit_blocks_for_verification ?s [1, 2, 3] 7) = {''B3'', ''B2''}"
    by (simp_all add: example_defs in_process_def in_pending_def add_block_to_pending_def
        append_if_unique_def update_gauges_def Let_def)
  show ?thesis
    using trackers_disjoint_preserved [of ?s 1 "[1, 2, 3]" 7] h e by simp
qed

section \<open>The cascade resolver on an invalid or undecided block\<close>

text \<open>
  The parked descendants of a block, in the words of the specification: the blocks
  reachable from it through \<open>pending_by_parent\<close>. \<open>parked_descendants ident m W\<close>
  are the blocks of \<open>W\<close> and everything parked, in \<open>m\<close>, under the identifier of one
  of them or of one of their descendants.
\<close>

inductive_set parked_descendants ::
  "(ref \<Rightarrow> block_id) \<Rightarrow> (block_id \<times> ref list) list \<Rightarrow> ref set \<Rightarrow> ref set"
  for ident :: "ref \<Rightarrow> block_id" and m :: "(block_id \<times> ref list) list" and W :: "ref set"
  where
    start: "r \<in> W \<Longrightarrow> r \<in> parked_descendants ident m W"
  | child: "p \<in> parked_descendants ident m W \<Longrightarrow> map_of m (ident p) = Some cs \<Longrightarrow>
      r \<in> set cs \<Longrightarrow> r \<in> parked_descendants ident m W"

text \<open>The descendants of \<open>block\<close>: its parked children and their descendants.\<close>

definition parked_descendants_of :: "vstate \<Rightarrow> ref \<Rightarrow> ref set" where
  "parked_descendants_of s block =
     parked_descendants (idf s) (blocks_pending_descendants s)
       (case map_of (blocks_pending_descendants s) (idf s block) of
          None \<Rightarrow> {}
        | Some children \<Rightarrow> set children)"

text \<open>
  The order in which a work list seeded with \<open>w\<close> takes the blocks: the last element
  first, its parked children appended to the rest of the list, their key removed from the
  multimap. The two loops of the resolver visit blocks in this order.
\<close>

function visit_order ::
  "(ref \<Rightarrow> block_id) \<Rightarrow> (block_id \<times> ref list) list \<Rightarrow> ref list \<Rightarrow> ref list" where
  "visit_order ident m w =
     (if w = [] then []
      else last w # visit_order ident (snd (mm_pop m (ident (last w)) []))
                      (butlast w @ fst (mm_pop m (ident (last w)) [])))"
  by pat_completeness auto
termination
proof (relation "measure (\<lambda>(ident, m, w). length w + parked_count m)", goal_cases)
  case 1
  show ?case by simp
next
  case (2 ident m w)
  have "length (butlast w) + 1 = length w"
    using 2 by (cases w rule: rev_cases) simp_all
  then show ?case
    using parked_count_pop [of m "ident (last w)"]
    by (simp del: length_butlast)
qed

declare visit_order.simps [simp del]

lemma visit_order_Nil: "visit_order ident m [] = []"
  by (simp add: visit_order.simps)

lemma visit_order_step:
  "w \<noteq> [] \<Longrightarrow> visit_order ident m w =
     last w # visit_order ident (snd (mm_pop m (ident (last w)) []))
                (butlast w @ fst (mm_pop m (ident (last w)) []))"
  by (subst visit_order.simps) simp

lemma map_of_mm_pop:
  "map_of (snd (mm_pop m k [])) k' = (if k' = k then None else map_of m k')"
  by (auto simp: mm_pop_def delete_conv' split: option.splits)

lemma set_fst_mm_pop:
  "set (fst (mm_pop m k [])) = (case map_of m k of None \<Rightarrow> {} | Some cs \<Rightarrow> set cs)"
  by (auto simp: mm_pop_def split: option.splits)

lemma parked_descendants_empty: "parked_descendants ident m {} = {}"
proof -
  have "False" if "x \<in> parked_descendants ident m {}" for x
    using that by (induction rule: parked_descendants.induct) auto
  then show ?thesis by auto
qed

lemma parked_descendants_pop:
  "parked_descendants ident m (insert r W)
   = insert r (parked_descendants ident (snd (mm_pop m (ident r) []))
                 (W \<union> set (fst (mm_pop m (ident r) []))))"
  (is "?A = insert r ?B")
proof (intro set_eqI iffI)
  fix x assume "x \<in> ?A"
  then show "x \<in> insert r ?B"
  proof (induction rule: parked_descendants.induct)
    case (start x)
    then show ?case by (auto intro: parked_descendants.start)
  next
    case (child p cs x)
    show ?case
    proof (cases "ident p = ident r")
      case True
      then have "x \<in> set (fst (mm_pop m (ident r) []))"
        using child.hyps(2,3) by (simp add: set_fst_mm_pop)
      then show ?thesis by (auto intro: parked_descendants.start)
    next
      case False
      then have "p \<in> ?B" using child.IH by auto
      moreover have "map_of (snd (mm_pop m (ident r) [])) (ident p) = Some cs"
        using False child.hyps(2) by (simp add: map_of_mm_pop)
      ultimately show ?thesis
        using child.hyps(3) by (auto intro: parked_descendants.child)
    qed
  qed
next
  fix x assume "x \<in> insert r ?B"
  then consider "x = r" | "x \<in> ?B" by auto
  then show "x \<in> ?A"
  proof cases
    case 1
    then show ?thesis by (auto intro: parked_descendants.start)
  next
    case 2
    then show ?thesis
    proof (induction rule: parked_descendants.induct)
      case (start x)
      then consider "x \<in> W" | "x \<in> set (fst (mm_pop m (ident r) []))" by auto
      then show ?case
      proof cases
        case 1
        then show ?thesis by (auto intro: parked_descendants.start)
      next
        case 2
        then obtain cs where "map_of m (ident r) = Some cs" "x \<in> set cs"
          by (auto simp: set_fst_mm_pop split: option.splits)
        then show ?thesis
          using parked_descendants.child [of r ident m "insert r W" cs x]
          by (auto intro: parked_descendants.start)
      qed
    next
      case (child p cs x)
      then have "map_of m (ident p) = Some cs"
        by (auto simp: map_of_mm_pop split: if_splits)
      then show ?case
        using child.IH child.hyps(3) by (auto intro: parked_descendants.child)
    qed
  qed
qed

lemma set_visit_order:
  "set (visit_order ident m w) = parked_descendants ident m (set w)"
proof (induction ident m w rule: visit_order.induct)
  case (1 ident m w)
  show ?case
  proof (cases "w = []")
    case True
    then show ?thesis by (simp add: visit_order_Nil parked_descendants_empty)
  next
    case False
    then have w: "set w = insert (last w) (set (butlast w))"
      by (cases w rule: rev_cases) auto
    have "set (visit_order ident m w)
        = insert (last w) (set (visit_order ident (snd (mm_pop m (ident (last w)) []))
                                  (butlast w @ fst (mm_pop m (ident (last w)) []))))"
      by (simp add: visit_order_step [OF False])
    also have "\<dots> = insert (last w)
        (parked_descendants ident (snd (mm_pop m (ident (last w)) []))
           (set (butlast w) \<union> set (fst (mm_pop m (ident (last w)) []))))"
      using 1 [OF False] by simp
    also have "\<dots> = parked_descendants ident m (insert (last w) (set (butlast w)))"
      by (rule parked_descendants_pop [symmetric])
    finally show ?thesis using w by simp
  qed
qed


text \<open>All block objects in the multimap, key after key.\<close>

definition parked_blocks :: "(block_id \<times> ref list) list \<Rightarrow> ref list" where
  "parked_blocks m = concat (map snd m)"

lemma mset_parked_blocks_delete:
  "mset (parked_blocks (AList.delete k m)) \<subseteq># mset (parked_blocks m)"
  by (induction m) (auto simp: parked_blocks_def intro: subset_mset.add_increasing)

lemma mset_parked_blocks_delete_Some:
  "map_of m k = Some cs \<Longrightarrow>
     mset cs + mset (parked_blocks (AList.delete k m)) \<subseteq># mset (parked_blocks m)"
proof (induction m)
  case Nil
  then show ?case by simp
next
  case (Cons a m)
  show ?case
  proof (cases "fst a = k")
    case True
    then show ?thesis
      using Cons.prems mset_parked_blocks_delete [of k m]
      by (cases a) (auto simp: parked_blocks_def)
  next
    case False
    then have "mset cs + mset (parked_blocks (AList.delete k m)) \<subseteq># mset (parked_blocks m)"
      using Cons by (cases a) auto
    then show ?thesis
      using False by (cases a) (auto simp: parked_blocks_def)
  qed
qed

lemma mset_mm_pop:
  "mset (fst (mm_pop m k [])) + mset (parked_blocks (snd (mm_pop m k [])))
     \<subseteq># mset (parked_blocks m)"
  using mset_parked_blocks_delete_Some [of m k]
  by (auto simp: mm_pop_def split: option.splits)

lemma mset_visit_order:
  "mset (visit_order ident m w) \<subseteq># mset w + mset (parked_blocks m)"
proof (induction ident m w rule: visit_order.induct)
  case (1 ident m w)
  show ?case
  proof (cases "w = []")
    case True
    then show ?thesis by (simp add: visit_order_Nil)
  next
    case False
    let ?p = "mm_pop m (ident (last w)) []"
    have w: "mset w = mset (butlast w) + {#last w#}"
      using False by (cases w rule: rev_cases) auto
    have "mset (visit_order ident (snd ?p) (butlast w @ fst ?p))
        \<subseteq># mset (butlast w) + (mset (fst ?p) + mset (parked_blocks (snd ?p)))"
      using 1 [OF False] by (simp add: add.assoc)
    also have "\<dots> \<subseteq># mset (butlast w) + mset (parked_blocks m)"
      using mset_mm_pop [of m "ident (last w)"] by simp
    finally show ?thesis
      by (simp add: visit_order_step [OF False] w)
  qed
qed

lemma distinct_mset_subseteq:
  assumes "mset xs \<subseteq># mset ys" and "distinct ys"
  shows "distinct xs"
proof -
  have "count (mset xs) a = (if a \<in> set xs then 1 else 0)" for a
  proof (cases "a \<in> set xs")
    case True
    then have c1: "1 \<le> count (mset xs) a" by (simp add: count_greater_eq_one_iff)
    have c2: "count (mset ys) a \<le> 1"
      using assms(2) by (simp add: distinct_count_atmost_1)
    have c3: "count (mset xs) a \<le> count (mset ys) a"
      by (rule mset_subset_eq_count [OF assms(1)])
    from c1 c2 c3 have "count (mset xs) a = 1" by linarith
    then show ?thesis using True by simp
  next
    case False
    then show ?thesis by (simp add: count_eq_zero_iff)
  qed
  then show ?thesis by (simp add: distinct_count_atmost_1)
qed

lemma visit_order_wf:
  assumes "distinct (map ident (w @ parked_blocks m))"
    and "ident ` set (w @ parked_blocks m) \<subseteq> P"
  shows "distinct (map ident (visit_order ident m w))"
    and "ident ` set (visit_order ident m w) \<subseteq> P"
proof -
  have sub: "mset (visit_order ident m w) \<subseteq># mset (w @ parked_blocks m)"
    using mset_visit_order [of ident m w] by simp
  then have "mset (map ident (visit_order ident m w)) \<subseteq># mset (map ident (w @ parked_blocks m))"
    unfolding mset_map by (rule image_mset_subseteq_mono)
  then show "distinct (map ident (visit_order ident m w))"
    using assms(1) by (rule distinct_mset_subseteq)
  have "set (visit_order ident m w) \<subseteq> set (w @ parked_blocks m)"
    using set_mset_mono [OF sub] by simp
  then show "ident ` set (visit_order ident m w) \<subseteq> P"
    using assms(2) by blast
qed


lemma invalidate_step_fields:
  "idf (invalidate_step s r) x = idf s x"
  "heap (invalidate_step s r) = (heap s)(r := (heap s r)\<lparr>status := Invalid\<rparr>)"
  "blocks_pending (invalidate_step s r) = blocks_pending s - {idf s r}"
  "blocks_pending_descendants (invalidate_step s r)
     = snd (mm_pop (blocks_pending_descendants s) (idf s r) [])"
  "events (invalidate_step s r) = events s @ [StatusSet r Invalid]"
  "block_cache (invalidate_step s r) = block_cache s"
  by (simp_all add: invalidate_step_def set_status_def)

lemma invalidate_loop_visits:
  assumes "distinct (map (idf s) (visit_order (idf s) (blocks_pending_descendants s) w))"
    and "idf s ` set (visit_order (idf s) (blocks_pending_descendants s) w) \<subseteq> blocks_pending s"
  shows "snd (invalidate_loop s w) = None
     \<and> blocks_pending (fst (invalidate_loop s w))
         = blocks_pending s - idf s ` set (visit_order (idf s) (blocks_pending_descendants s) w)
     \<and> events (fst (invalidate_loop s w))
         = events s @ map (\<lambda>r. StatusSet r Invalid)
                        (visit_order (idf s) (blocks_pending_descendants s) w)
     \<and> (\<forall>x. heap (fst (invalidate_loop s w)) x
            = (if x \<in> set (visit_order (idf s) (blocks_pending_descendants s) w)
               then (heap s x)\<lparr>status := Invalid\<rparr> else heap s x))
     \<and> block_cache (fst (invalidate_loop s w)) = block_cache s"
  using assms
proof (induction s w rule: invalidate_loop.induct)
  case (1 s w)
  show ?case
  proof (cases "w = []")
    case True
    then show ?thesis by (simp add: invalidate_loop_Nil visit_order_Nil)
  next
    case ne: False
    let ?r = "last w"
    let ?m = "blocks_pending_descendants s"
    let ?s' = "invalidate_step s ?r"
    let ?w' = "butlast w @ fst (mm_pop ?m (idf s ?r) [])"
    let ?L' = "visit_order (idf s) (snd (mm_pop ?m (idf s ?r) [])) ?w'"
    have L: "visit_order (idf s) ?m w = ?r # ?L'"
      by (rule visit_order_step [OF ne])
    have ids: "idf ?s' = idf s"
      by (rule ext) (simp add: invalidate_step_fields)
    have L': "visit_order (idf ?s') (blocks_pending_descendants ?s') ?w' = ?L'"
      by (simp only: ids invalidate_step_fields(4))
    have inp: "idf s ?r \<in> blocks_pending s"
      and nr: "idf s ?r \<notin> idf s ` set ?L'"
      and d': "distinct (map (idf s) ?L')"
      and sub': "idf s ` set ?L' \<subseteq> blocks_pending s"
      using "1.prems" by (auto simp: L)
    have rem: "set_remove (blocks_pending (set_status s ?r Invalid))
              (idf (set_status s ?r Invalid) ?r)
            = Inr (blocks_pending s - {idf s ?r})"
      using inp by (simp add: set_remove_def set_status_fields)
    have step_state: "(set_status s ?r Invalid)
          \<lparr>blocks_pending := blocks_pending s - {idf s ?r},
           blocks_pending_descendants :=
             snd (mm_pop (blocks_pending_descendants (set_status s ?r Invalid))
                   (idf (set_status s ?r Invalid) ?r) [])\<rparr> = ?s'"
      by (simp add: invalidate_step_def set_status_fields)
    have step_list: "butlast w @ fst (mm_pop (blocks_pending_descendants (set_status s ?r Invalid))
                   (idf (set_status s ?r Invalid) ?r) []) = ?w'"
      by (simp add: set_status_fields)
    have IH: "snd (invalidate_loop ?s' ?w') = None
       \<and> blocks_pending (fst (invalidate_loop ?s' ?w')) = blocks_pending ?s' - idf ?s' ` set ?L'
       \<and> events (fst (invalidate_loop ?s' ?w'))
           = events ?s' @ map (\<lambda>r. StatusSet r Invalid) ?L'
       \<and> (\<forall>x. heap (fst (invalidate_loop ?s' ?w')) x
            = (if x \<in> set ?L' then (heap ?s' x)\<lparr>status := Invalid\<rparr> else heap ?s' x))
       \<and> block_cache (fst (invalidate_loop ?s' ?w')) = block_cache ?s'"
    proof -
      have "distinct (map (idf ?s') ?L')"
        unfolding ids by (rule d')
      then have p1:
        "distinct (map (idf ?s') (visit_order (idf ?s') (blocks_pending_descendants ?s') ?w'))"
        by (simp only: L')
      have "idf ?s' ` set ?L' \<subseteq> blocks_pending ?s'"
        unfolding ids invalidate_step_fields(3) using sub' nr by (metis Diff_empty subset_Diff_insert)
      then have p2: "idf ?s' ` set (visit_order (idf ?s') (blocks_pending_descendants ?s') ?w')
            \<subseteq> blocks_pending ?s'"
        by (simp only: L')
      from "1.IH" [OF ne refl refl rem, unfolded step_state step_list, OF p1 p2]
      show ?thesis by (simp add: L')
    qed
    have eq: "invalidate_loop s w = invalidate_loop ?s' ?w'"
      by (rule invalidate_loop_step [OF ne inp])
    note IH' = IH [unfolded ids, unfolded invalidate_step_fields(2,3,5,6)]
    have g1: "snd (invalidate_loop ?s' ?w') = None"
      using IH' by (rule conjunct1)
    have g2: "blocks_pending (fst (invalidate_loop ?s' ?w'))
        = blocks_pending s - idf s ` set (?r # ?L')"
      unfolding IH' [THEN conjunct2, THEN conjunct1] by auto
    have g3: "events (fst (invalidate_loop ?s' ?w'))
        = events s @ map (\<lambda>r. StatusSet r Invalid) (?r # ?L')"
      using IH' [THEN conjunct2, THEN conjunct2, THEN conjunct1] by simp
    have g4: "heap (fst (invalidate_loop ?s' ?w')) x
        = (if x \<in> set (?r # ?L') then (heap s x)\<lparr>status := Invalid\<rparr> else heap s x)" for x
      using IH' [THEN conjunct2, THEN conjunct2, THEN conjunct2, THEN conjunct1, rule_format, of x]
      by (cases "x = ?r") simp_all
    have g5: "block_cache (fst (invalidate_loop ?s' ?w')) = block_cache s"
      using IH' [THEN conjunct2, THEN conjunct2, THEN conjunct2, THEN conjunct2] .
    show ?thesis
      unfolding eq L using g1 g2 g3 g4 g5 by blast
  qed
qed


lemma remove_step_fields:
  "heap (remove_step s r) = heap s"
  "blocks_pending (remove_step s r) = blocks_pending s - {idf s r}"
  "blocks_pending_descendants (remove_step s r)
     = snd (mm_pop (blocks_pending_descendants s) (idf s r) [])"
  "events (remove_step s r) = events s @ [CacheDelete (idf s r)]"
  "block_cache (remove_step s r) = (block_cache s)(idf s r := None)"
  by (simp_all add: remove_step_def)

lemma remove_loop_visits:
  assumes "distinct (map (idf s) (visit_order (idf s) (blocks_pending_descendants s) w))"
    and "idf s ` set (visit_order (idf s) (blocks_pending_descendants s) w) \<subseteq> blocks_pending s"
    and "idf s ` set (visit_order (idf s) (blocks_pending_descendants s) w)
           \<subseteq> dom (block_cache s)"
  shows "snd (remove_loop s w) = None
     \<and> blocks_pending (fst (remove_loop s w))
         = blocks_pending s - idf s ` set (visit_order (idf s) (blocks_pending_descendants s) w)
     \<and> events (fst (remove_loop s w))
         = events s @ map (\<lambda>r. CacheDelete (idf s r))
                        (visit_order (idf s) (blocks_pending_descendants s) w)
     \<and> heap (fst (remove_loop s w)) = heap s
     \<and> (\<forall>k. block_cache (fst (remove_loop s w)) k
            = (if k \<in> idf s ` set (visit_order (idf s) (blocks_pending_descendants s) w)
               then None else block_cache s k))"
  using assms
proof (induction s w rule: remove_loop.induct)
  case (1 s w)
  show ?case
  proof (cases "w = []")
    case True
    then show ?thesis by (simp add: remove_loop_Nil visit_order_Nil)
  next
    case ne: False
    let ?r = "last w"
    let ?m = "blocks_pending_descendants s"
    let ?s' = "remove_step s ?r"
    let ?w' = "butlast w @ fst (mm_pop ?m (idf s ?r) [])"
    let ?L' = "visit_order (idf s) (snd (mm_pop ?m (idf s ?r) [])) ?w'"
    have L: "visit_order (idf s) ?m w = ?r # ?L'"
      by (rule visit_order_step [OF ne])
    have hp: "heap ?s' = heap s"
      by (simp add: remove_step_fields)
    have L': "visit_order (idf ?s') (blocks_pending_descendants ?s') ?w' = ?L'"
      by (simp only: hp remove_step_fields(3))
    have inp: "idf s ?r \<in> blocks_pending s"
      and inc: "block_cache s (idf s ?r) \<noteq> None"
      and nr: "idf s ?r \<notin> idf s ` set ?L'"
      and d': "distinct (map (idf s) ?L')"
      and sub': "idf s ` set ?L' \<subseteq> blocks_pending s"
      and cache': "idf s ` set ?L' \<subseteq> dom (block_cache s)"
      using "1.prems" by (auto simp: L)
    have rem: "set_remove (blocks_pending s) (idf s ?r) = Inr (blocks_pending s - {idf s ?r})"
      using inp by (simp add: set_remove_def)
    have inc': "block_cache (s\<lparr>blocks_pending := blocks_pending s - {idf s ?r}\<rparr>)
          (idf (s\<lparr>blocks_pending := blocks_pending s - {idf s ?r}\<rparr>) ?r) \<noteq> None"
      using inc by simp
    have step_state: "(s\<lparr>blocks_pending := blocks_pending s - {idf s ?r}\<rparr>)
          \<lparr>block_cache := (block_cache (s\<lparr>blocks_pending := blocks_pending s - {idf s ?r}\<rparr>))
             (idf (s\<lparr>blocks_pending := blocks_pending s - {idf s ?r}\<rparr>) ?r := None),
           events := events (s\<lparr>blocks_pending := blocks_pending s - {idf s ?r}\<rparr>)
             @ [CacheDelete (idf (s\<lparr>blocks_pending := blocks_pending s - {idf s ?r}\<rparr>) ?r)],
           blocks_pending_descendants :=
             snd (mm_pop (blocks_pending_descendants
                            (s\<lparr>blocks_pending := blocks_pending s - {idf s ?r}\<rparr>))
                   (idf (s\<lparr>blocks_pending := blocks_pending s - {idf s ?r}\<rparr>) ?r) [])\<rparr> = ?s'"
      by (simp add: remove_step_def)
    have step_list: "butlast w @ fst (mm_pop (blocks_pending_descendants
                            (s\<lparr>blocks_pending := blocks_pending s - {idf s ?r}\<rparr>))
                   (idf (s\<lparr>blocks_pending := blocks_pending s - {idf s ?r}\<rparr>) ?r) []) = ?w'"
      by simp
    have IH: "snd (remove_loop ?s' ?w') = None
       \<and> blocks_pending (fst (remove_loop ?s' ?w')) = blocks_pending ?s' - idf ?s' ` set ?L'
       \<and> events (fst (remove_loop ?s' ?w'))
           = events ?s' @ map (\<lambda>r. CacheDelete (idf ?s' r)) ?L'
       \<and> heap (fst (remove_loop ?s' ?w')) = heap ?s'
       \<and> (\<forall>k. block_cache (fst (remove_loop ?s' ?w')) k
            = (if k \<in> idf ?s' ` set ?L' then None else block_cache ?s' k))"
    proof -
      have "distinct (map (idf ?s') ?L')"
        unfolding hp by (rule d')
      then have p1:
        "distinct (map (idf ?s') (visit_order (idf ?s') (blocks_pending_descendants ?s') ?w'))"
        by (simp only: L')
      have "idf ?s' ` set ?L' \<subseteq> blocks_pending ?s'"
        unfolding hp remove_step_fields(2) using sub' nr
        by (metis Diff_empty subset_Diff_insert)
      then have p2: "idf ?s' ` set (visit_order (idf ?s') (blocks_pending_descendants ?s') ?w')
            \<subseteq> blocks_pending ?s'"
        by (simp only: L')
      have "dom ((block_cache s)(idf s ?r := None)) = dom (block_cache s) - {idf s ?r}"
        by simp
      then have "idf ?s' ` set ?L' \<subseteq> dom (block_cache ?s')"
        unfolding hp remove_step_fields(5) using cache' nr
        by (metis Diff_empty subset_Diff_insert)
      then have p3: "idf ?s' ` set (visit_order (idf ?s') (blocks_pending_descendants ?s') ?w')
            \<subseteq> dom (block_cache ?s')"
        by (simp only: L')
      from "1.IH" [OF ne refl rem refl inc', unfolded step_state step_list, OF p1 p2 p3]
      show ?thesis by (simp add: L')
    qed
    have eq: "remove_loop s w = remove_loop ?s' ?w'"
      by (rule remove_loop_step [OF ne inp inc])
    note IH' = IH [unfolded hp, unfolded remove_step_fields(2,4,5)]
    have g1: "snd (remove_loop ?s' ?w') = None"
      using IH' by (rule conjunct1)
    have g2: "blocks_pending (fst (remove_loop ?s' ?w'))
        = blocks_pending s - idf s ` set (?r # ?L')"
      unfolding IH' [THEN conjunct2, THEN conjunct1] by auto
    have g3: "events (fst (remove_loop ?s' ?w'))
        = events s @ map (\<lambda>r. CacheDelete (idf s r)) (?r # ?L')"
      using IH' [THEN conjunct2, THEN conjunct2, THEN conjunct1] by simp
    have g4: "heap (fst (remove_loop ?s' ?w')) = heap s"
      using IH' [THEN conjunct2, THEN conjunct2, THEN conjunct2, THEN conjunct1] .
    have g5: "block_cache (fst (remove_loop ?s' ?w')) k
        = (if k \<in> idf s ` set (?r # ?L') then None else block_cache s k)" for k
      using IH' [THEN conjunct2, THEN conjunct2, THEN conjunct2, THEN conjunct2, rule_format, of k]
      by (cases "k = idf s ?r") simp_all
    show ?thesis
      unfolding eq L using g1 g2 g3 g4 g5 by blast
  qed
qed


text \<open>
  The trackers are consistent when no identifier is parked twice and every parked block
  has its identifier in \<open>pending\<close>: a parked block is one that
  \<open>_add_block_to_pending\<close> has put in both.
\<close>

definition trackers_wf :: "vstate \<Rightarrow> bool" where
  "trackers_wf s =
     (distinct (map (idf s) (parked_blocks (blocks_pending_descendants s)))
      \<and> idf s ` set (parked_blocks (blocks_pending_descendants s)) \<subseteq> blocks_pending s)"

text \<open>\<open>B1\<close> is in processing with the status \<open>st1\<close>, \<open>B2\<close> is parked under it and
  \<open>B3\<close> under \<open>B2\<close>.\<close>

definition example_parked :: "BlockStatus \<Rightarrow> vstate" where
  "example_parked st1 =
     (example_state Valid st1)
       \<lparr>blocks_processing := {''B1''},
        blocks_pending := {''B3'', ''B2''},
        blocks_pending_descendants := [(''B1'', [2]), (''B2'', [3])]\<rparr>"

lemma parked_descendants_popped:
  assumes "set (fst (mm_pop m k [])) \<subseteq> W"
  shows "parked_descendants ident (snd (mm_pop m k [])) W = parked_descendants ident m W"
proof (intro set_eqI iffI)
  fix x assume "x \<in> parked_descendants ident (snd (mm_pop m k [])) W"
  then show "x \<in> parked_descendants ident m W"
  proof (induction rule: parked_descendants.induct)
    case (start r)
    then show ?case by (rule parked_descendants.start)
  next
    case (child p cs r)
    then have "map_of m (ident p) = Some cs"
      by (auto simp: map_of_mm_pop split: if_splits)
    then show ?case
      using child.IH child.hyps(3) by (auto intro: parked_descendants.child)
  qed
next
  fix x assume "x \<in> parked_descendants ident m W"
  then show "x \<in> parked_descendants ident (snd (mm_pop m k [])) W"
  proof (induction rule: parked_descendants.induct)
    case (start r)
    then show ?case by (rule parked_descendants.start)
  next
    case (child p cs r)
    show ?case
    proof (cases "ident p = k")
      case True
      then have "r \<in> set (fst (mm_pop m k []))"
        using child.hyps(2,3) by (simp add: set_fst_mm_pop)
      then show ?thesis using assms by (auto intro: parked_descendants.start)
    next
      case False
      then have "map_of (snd (mm_pop m k [])) (ident p) = Some cs"
        using child.hyps(2) by (simp add: map_of_mm_pop)
      then show ?thesis
        using child.IH child.hyps(3) by (auto intro: parked_descendants.child)
    qed
  qed
qed

lemma cascade_visit_order:
  fixes s :: vstate and block :: ref
  defines "L \<equiv> visit_order (idf s)
                 (snd (mm_pop (blocks_pending_descendants s) (idf s block) []))
                 (fst (mm_pop (blocks_pending_descendants s) (idf s block) []))"
  assumes "trackers_wf s"
  shows "set L = parked_descendants_of s block"
    and "distinct (map (idf s) L)"
    and "idf s ` set L \<subseteq> blocks_pending s"
proof -
  let ?m = "blocks_pending_descendants s"
  let ?p = "mm_pop ?m (idf s block) []"
  have "set L = parked_descendants (idf s) (snd ?p) (set (fst ?p))"
    unfolding L_def by (rule set_visit_order)
  also have "\<dots> = parked_descendants (idf s) ?m (set (fst ?p))"
    by (rule parked_descendants_popped) simp
  finally show "set L = parked_descendants_of s block"
    by (simp add: parked_descendants_of_def set_fst_mm_pop)
  have sub: "mset (fst ?p @ parked_blocks (snd ?p)) \<subseteq># mset (parked_blocks ?m)"
    using mset_mm_pop [of ?m "idf s block"] by simp
  then have "mset (map (idf s) (fst ?p @ parked_blocks (snd ?p)))
      \<subseteq># mset (map (idf s) (parked_blocks ?m))"
    unfolding mset_map by (rule image_mset_subseteq_mono)
  moreover have "distinct (map (idf s) (parked_blocks ?m))"
    using assms(2) by (simp add: trackers_wf_def)
  ultimately have d: "distinct (map (idf s) (fst ?p @ parked_blocks (snd ?p)))"
    by (rule distinct_mset_subseteq)
  have "set (fst ?p @ parked_blocks (snd ?p)) \<subseteq> set (parked_blocks ?m)"
    using set_mset_mono [OF sub] by simp
  then have i: "idf s ` set (fst ?p @ parked_blocks (snd ?p)) \<subseteq> blocks_pending s"
    using assms(2) by (auto simp: trackers_wf_def)
  show "distinct (map (idf s) L)" and "idf s ` set L \<subseteq> blocks_pending s"
    unfolding L_def using visit_order_wf [OF d i] by simp_all
qed

lemma count_list_map_distinct:
  "distinct xs \<Longrightarrow> x \<in> set xs \<Longrightarrow> inj f \<Longrightarrow> count_list (map f xs) (f x) = 1"
  by (induction xs) (auto simp: inj_eq count_list_0_iff)

lemma example_parked_wf: "trackers_wf (example_parked st)"
  by (simp add: trackers_wf_def parked_blocks_def example_parked_def example_defs)

lemma example_parked_descendants:
  "2 \<in> parked_descendants_of (example_parked st) 1"
  "3 \<in> parked_descendants_of (example_parked st) 1"
proof -
  let ?s = "example_parked st"
  let ?W = "case map_of (blocks_pending_descendants ?s) (idf ?s 1) of
              None \<Rightarrow> {} | Some children \<Rightarrow> set children"
  have two: "2 \<in> parked_descendants (idf ?s) (blocks_pending_descendants ?s) ?W"
    by (rule parked_descendants.start) (simp add: example_parked_def example_defs)
  then show "2 \<in> parked_descendants_of ?s 1"
    by (simp add: parked_descendants_of_def)
  have "3 \<in> parked_descendants (idf ?s) (blocks_pending_descendants ?s) ?W"
    by (rule parked_descendants.child [OF two, of "[3]"])
       (simp_all add: example_parked_def example_defs)
  then show "3 \<in> parked_descendants_of ?s 1"
    by (simp add: parked_descendants_of_def)
qed

text \<open>
  C6, as the claim states it, fails when the trackers are not consistent. Here \<open>B1\<close>
  is invalid, \<open>B2\<close> is in the multimap under \<open>B1\<close> but its identifier is not in
  \<open>pending\<close>, and \<open>B3\<close> is parked under \<open>B2\<close>: the removal of \<open>B2\<close> from
  \<open>pending\<close> raises \<open>KeyError\<close>, the resolver does not return the empty list, and
  the parked descendant \<open>B3\<close> keeps its status and stays pending.
\<close>

theorem invalid_cascade_counterexample:
  "3 \<in> parked_descendants_of ((example_parked Invalid)\<lparr>blocks_pending := {''B3''}\<rparr>) 1
   \<and> snd (release_pending ((example_parked Invalid)\<lparr>blocks_pending := {''B3''}\<rparr>) 1)
       = Inl KeyError
   \<and> status (heap (fst (release_pending
         ((example_parked Invalid)\<lparr>blocks_pending := {''B3''}\<rparr>) 1)) 3) = Unknown
   \<and> ''B3'' \<in> blocks_pending (fst (release_pending
         ((example_parked Invalid)\<lparr>blocks_pending := {''B3''}\<rparr>) 1))"
proof -
  let ?s = "(example_parked Invalid)\<lparr>blocks_pending := {''B3''}\<rparr>"
  have "parked_descendants_of ?s 1 = parked_descendants_of (example_parked Invalid) 1"
    by (simp add: parked_descendants_of_def)
  then have "3 \<in> parked_descendants_of ?s 1"
    using example_parked_descendants(2) [of Invalid] by simp
  moreover have "snd (release_pending ?s 1) = Inl KeyError
      \<and> status (heap (fst (release_pending ?s 1)) 3) = Unknown
      \<and> ''B3'' \<in> blocks_pending (fst (release_pending ?s 1))"
    by code_simp
  ultimately show ?thesis by simp
qed

text \<open>
  C6, amended. When the trackers are consistent (no identifier is parked twice and every
  parked block has its identifier in \<open>pending\<close>), \<open>_release_pending\<close> on a block
  whose status is \<open>Invalid\<close> returns the empty list, and every parked descendant of the
  block has the status \<open>Invalid\<close> afterwards, is no longer in \<open>pending\<close>, and had its
  status set to \<open>Invalid\<close> exactly once by this call.
\<close>

theorem invalid_cascade:
  assumes "status (heap s block) = Invalid" and "trackers_wf s"
  shows "snd (release_pending s block) = Inr []
     \<and> (\<forall>r\<in>parked_descendants_of s block.
           status (heap (fst (release_pending s block)) r) = Invalid
         \<and> idf s r \<notin> blocks_pending (fst (release_pending s block))
         \<and> count_list (drop (length (events s)) (events (fst (release_pending s block))))
              (StatusSet r Invalid) = 1)"
proof -
  let ?s1 = "case set_remove (blocks_processing s) (idf s block) of
               Inl e \<Rightarrow> s | Inr processing \<Rightarrow> s\<lparr>blocks_processing := processing\<rparr>"
  let ?p = "mm_pop (blocks_pending_descendants s) (idf s block) []"
  let ?s2 = "?s1\<lparr>blocks_pending_descendants := snd ?p\<rparr>"
  let ?L = "visit_order (idf s) (snd ?p) (fst ?p)"
  have s1: "heap ?s1 = heap s" "blocks_pending_descendants ?s1 = blocks_pending_descendants s"
    "blocks_pending ?s1 = blocks_pending s" "events ?s1 = events s"
    by (simp_all add: set_remove_def)
  have rp: "release_pending s block =
      (case invalidate_loop ?s2 (fst ?p) of
         (s3, Some e) \<Rightarrow> (s3, Inl e) | (s3, None) \<Rightarrow> (s3, Inr []))"
    using assms(1) by (simp add: release_pending_def Let_def s1)
  have s2: "heap ?s2 = heap s" "blocks_pending_descendants ?s2 = snd ?p"
    "blocks_pending ?s2 = blocks_pending s" "events ?s2 = events s"
    by (simp_all add: s1)
  note L = cascade_visit_order [OF assms(2), of block]
  have "distinct (map (idf ?s2) (visit_order (idf ?s2) (blocks_pending_descendants ?s2) (fst ?p)))"
    and "idf ?s2 ` set (visit_order (idf ?s2) (blocks_pending_descendants ?s2) (fst ?p))
       \<subseteq> blocks_pending ?s2"
    unfolding s2 using L(2,3) by simp_all
  from invalidate_loop_visits [OF this, unfolded s2]
  have r1: "snd (invalidate_loop ?s2 (fst ?p)) = None"
    and r2: "blocks_pending (fst (invalidate_loop ?s2 (fst ?p))) = blocks_pending s - idf s ` set ?L"
    and r3: "events (fst (invalidate_loop ?s2 (fst ?p)))
        = events s @ map (\<lambda>r. StatusSet r Invalid) ?L"
    and r4: "\<And>x. heap (fst (invalidate_loop ?s2 (fst ?p))) x
        = (if x \<in> set ?L then (heap s x)\<lparr>status := Invalid\<rparr> else heap s x)"
    by blast+
  have res: "release_pending s block = (fst (invalidate_loop ?s2 (fst ?p)), Inr [])"
    unfolding rp using r1 by (cases "invalidate_loop ?s2 (fst ?p)") simp
  have "inj (\<lambda>r. StatusSet r Invalid)"
    by (rule injI) simp
  then have "count_list (map (\<lambda>r. StatusSet r Invalid) ?L) (StatusSet r Invalid) = 1"
    if "r \<in> set ?L" for r
    using count_list_map_distinct [of ?L r "\<lambda>r. StatusSet r Invalid"] L(2) that
    by (simp add: distinct_map)
  then show ?thesis
    unfolding res using r2 r3 r4 L(1) by auto
qed


text \<open>
  C7, as the claim states it, fails when a parked descendant is not in the block cache.
  \<open>B1\<close>, \<open>B2\<close> and \<open>B3\<close> are submitted while only \<open>B0\<close> and \<open>B1\<close> are in
  the cache; \<open>B1\<close> is dispatched, \<open>B2\<close> and \<open>B3\<close> are parked. The validation of
  \<open>B1\<close> ends with an unexpected exception, so its status stays \<open>Unknown\<close>; the
  resolver takes \<open>B2\<close> out of \<open>pending\<close>, \<open>del\<close> raises \<open>KeyError\<close>, and
  \<open>B3\<close> stays parked. The second half is the same call of the resolver on its own.
\<close>

theorem unknown_cascade_counterexample:
  "map_option blocks_pending
     (run_thread_pool 2 env_error (submit_blocks_for_verification
        ((example_state Valid Unknown)\<lparr>block_cache := [''B0'' \<mapsto> 0, ''B1'' \<mapsto> 1]\<rparr>)
        [1, 2, 3] 7)) = Some {''B3''}
   \<and> map_option blocks_pending_descendants
     (run_thread_pool 2 env_error (submit_blocks_for_verification
        ((example_state Valid Unknown)\<lparr>block_cache := [''B0'' \<mapsto> 0, ''B1'' \<mapsto> 1]\<rparr>)
        [1, 2, 3] 7)) = Some [(''B2'', [3])]
   \<and> 3 \<in> parked_descendants_of
        ((example_parked Unknown)\<lparr>block_cache := [''B0'' \<mapsto> 0, ''B1'' \<mapsto> 1]\<rparr>) 1
   \<and> snd (release_pending
        ((example_parked Unknown)\<lparr>block_cache := [''B0'' \<mapsto> 0, ''B1'' \<mapsto> 1]\<rparr>) 1)
       = Inl KeyError
   \<and> ''B3'' \<in> blocks_pending (fst (release_pending
        ((example_parked Unknown)\<lparr>block_cache := [''B0'' \<mapsto> 0, ''B1'' \<mapsto> 1]\<rparr>) 1))"
proof -
  let ?s = "(example_parked Unknown)\<lparr>block_cache := [''B0'' \<mapsto> 0, ''B1'' \<mapsto> 1]\<rparr>"
  have "parked_descendants_of ?s 1 = parked_descendants_of (example_parked Unknown) 1"
    by (simp add: parked_descendants_of_def)
  then have "3 \<in> parked_descendants_of ?s 1"
    using example_parked_descendants(2) [of Unknown] by simp
  moreover have "map_option blocks_pending
     (run_thread_pool 2 env_error (submit_blocks_for_verification
        ((example_state Valid Unknown)\<lparr>block_cache := [''B0'' \<mapsto> 0, ''B1'' \<mapsto> 1]\<rparr>)
        [1, 2, 3] 7)) = Some {''B3''}
   \<and> map_option blocks_pending_descendants
     (run_thread_pool 2 env_error (submit_blocks_for_verification
        ((example_state Valid Unknown)\<lparr>block_cache := [''B0'' \<mapsto> 0, ''B1'' \<mapsto> 1]\<rparr>)
        [1, 2, 3] 7)) = Some [(''B2'', [3])]"
    by code_simp
  moreover have "snd (release_pending ?s 1) = Inl KeyError
      \<and> ''B3'' \<in> blocks_pending (fst (release_pending ?s 1))"
    by code_simp
  ultimately show ?thesis by simp
qed

text \<open>
  C7, amended. When the trackers are consistent and every parked descendant of the block
  is in the block cache, \<open>_release_pending\<close> on a block whose status is \<open>Unknown\<close>
  returns the empty list; every parked descendant is taken out of \<open>pending\<close> and
  deleted from the block cache, and no block object is changed, so no status changes.
\<close>

theorem unknown_cascade:
  assumes "status (heap s block) = Unknown" and "trackers_wf s"
    and "idf s ` parked_descendants_of s block \<subseteq> dom (block_cache s)"
  shows "snd (release_pending s block) = Inr []
     \<and> heap (fst (release_pending s block)) = heap s
     \<and> (\<forall>r\<in>parked_descendants_of s block.
           idf s r \<notin> blocks_pending (fst (release_pending s block))
         \<and> block_cache (fst (release_pending s block)) (idf s r) = None
         \<and> status (heap (fst (release_pending s block)) r) = status (heap s r))"
proof -
  let ?s1 = "case set_remove (blocks_processing s) (idf s block) of
               Inl e \<Rightarrow> s | Inr processing \<Rightarrow> s\<lparr>blocks_processing := processing\<rparr>"
  let ?p = "mm_pop (blocks_pending_descendants s) (idf s block) []"
  let ?s2 = "?s1\<lparr>blocks_pending_descendants := snd ?p\<rparr>"
  let ?L = "visit_order (idf s) (snd ?p) (fst ?p)"
  have s1: "heap ?s1 = heap s" "blocks_pending_descendants ?s1 = blocks_pending_descendants s"
    "blocks_pending ?s1 = blocks_pending s" "block_cache ?s1 = block_cache s"
    by (simp_all add: set_remove_def)
  have rp: "release_pending s block =
      (case remove_loop ?s2 (fst ?p) of
         (s3, Some e) \<Rightarrow> (s3, Inl e) | (s3, None) \<Rightarrow> (s3, Inr []))"
    using assms(1) by (simp add: release_pending_def Let_def s1)
  have s2: "heap ?s2 = heap s" "blocks_pending_descendants ?s2 = snd ?p"
    "blocks_pending ?s2 = blocks_pending s" "block_cache ?s2 = block_cache s"
    by (simp_all add: s1)
  note L = cascade_visit_order [OF assms(2), of block]
  have "distinct (map (idf ?s2) (visit_order (idf ?s2) (blocks_pending_descendants ?s2) (fst ?p)))"
    and "idf ?s2 ` set (visit_order (idf ?s2) (blocks_pending_descendants ?s2) (fst ?p))
       \<subseteq> blocks_pending ?s2"
    and "idf ?s2 ` set (visit_order (idf ?s2) (blocks_pending_descendants ?s2) (fst ?p))
       \<subseteq> dom (block_cache ?s2)"
    unfolding s2 using L assms(3) by simp_all
  from remove_loop_visits [OF this, unfolded s2]
  have r1: "snd (remove_loop ?s2 (fst ?p)) = None"
    and r2: "blocks_pending (fst (remove_loop ?s2 (fst ?p))) = blocks_pending s - idf s ` set ?L"
    and r4: "heap (fst (remove_loop ?s2 (fst ?p))) = heap s"
    and r5: "\<And>k. block_cache (fst (remove_loop ?s2 (fst ?p))) k
        = (if k \<in> idf s ` set ?L then None else block_cache s k)"
    by blast+
  have res: "release_pending s block = (fst (remove_loop ?s2 (fst ?p)), Inr [])"
    unfolding rp using r1 by (cases "remove_loop ?s2 (fst ?p)") simp
  show ?thesis
    unfolding res using r2 r4 r5 L(1) by auto
qed

theorem invalid_cascade_witness:
  "status (heap (example_parked Invalid) 1) = Invalid
   \<and> trackers_wf (example_parked Invalid)
   \<and> 3 \<in> parked_descendants_of (example_parked Invalid) 1
   \<and> status (heap (example_parked Invalid) 3) = Unknown
   \<and> snd (release_pending (example_parked Invalid) 1) = Inr []
   \<and> status (heap (fst (release_pending (example_parked Invalid) 1)) 3) = Invalid
   \<and> ''B3'' \<notin> blocks_pending (fst (release_pending (example_parked Invalid) 1))
   \<and> count_list (events (fst (release_pending (example_parked Invalid) 1)))
        (StatusSet 3 Invalid) = 1"
proof -
  let ?s = "example_parked Invalid"
  have h: "status (heap ?s 1) = Invalid" "status (heap ?s 3) = Unknown" "idf ?s 3 = ''B3''"
    "events ?s = []"
    by (simp_all add: example_parked_def example_defs)
  from invalid_cascade [OF h(1) example_parked_wf]
  show ?thesis
    using example_parked_wf [of Invalid] example_parked_descendants(2) [of Invalid] h
    by auto
qed

theorem unknown_cascade_witness:
  "status (heap (example_parked Unknown) 1) = Unknown
   \<and> trackers_wf (example_parked Unknown)
   \<and> 3 \<in> parked_descendants_of (example_parked Unknown) 1
   \<and> block_cache (example_parked Unknown) ''B3'' = Some 3
   \<and> snd (release_pending (example_parked Unknown) 1) = Inr []
   \<and> heap (fst (release_pending (example_parked Unknown) 1)) = heap (example_parked Unknown)
   \<and> ''B3'' \<notin> blocks_pending (fst (release_pending (example_parked Unknown) 1))
   \<and> block_cache (fst (release_pending (example_parked Unknown) 1)) ''B3'' = None"
proof -
  let ?s = "example_parked Unknown"
  have h: "status (heap ?s 1) = Unknown" "idf ?s 3 = ''B3''" "block_cache ?s ''B3'' = Some 3"
    by (simp_all add: example_parked_def example_defs)
  have "idf ?s r \<in> dom (block_cache ?s)" for r
    by (simp add: example_parked_def example_defs)
  then have c: "idf ?s ` parked_descendants_of ?s 1 \<subseteq> dom (block_cache ?s)"
    by blast
  from unknown_cascade [OF h(1) example_parked_wf c]
  show ?thesis
    using example_parked_wf [of Unknown] example_parked_descendants(2) [of Unknown] h
    by auto
qed

section \<open>The worker and the callback\<close>



















end
